theory Spec2Isabelle
  imports Main
begin

section \<open>Strings of the host language\<close>

text \<open>
  The hooks \<^verbatim>\<open>useSearch\<close> and \<^verbatim>\<open>useAutoSave\<close> work on JavaScript strings, which are
  sequences of code units. The model takes the code units below 256 (the Latin-1 range,
  where one code unit is one character) and writes them as \<^typ>\<open>char\<close>; on these
  \<^verbatim>\<open>toLowerCase\<close> maps code unit by code unit and keeps the length.
\<close>

definition toLowerCase_char :: "char \<Rightarrow> char" where
  "toLowerCase_char c =
     (let n = (of_char c :: nat)
      in if (65 \<le> n \<and> n \<le> 90) \<or> (192 \<le> n \<and> n \<le> 214) \<or> (216 \<le> n \<and> n \<le> 222)
         then char_of (n + 32) else c)"

definition toLowerCase :: "string \<Rightarrow> string" where
  "toLowerCase s = map toLowerCase_char s"

text \<open>
  \<^verbatim>\<open>s.indexOf(searchString, position)\<close>: the position is clamped to \<open>0..length s\<close>, the
  result is the least index from there at which \<open>searchString\<close> stands, and \<open>-1\<close> when
  there is none. An empty \<open>searchString\<close> stands at every index up to the length.
\<close>

definition indexOf :: "string \<Rightarrow> string \<Rightarrow> int \<Rightarrow> int" where
  "indexOf s searchString position =
     (let len = length s;
          start = nat (min (max position 0) (int len));
          searchLen = length searchString
      in if len < searchLen then - 1
         else (case List.find (\<lambda>i. take searchLen (drop i s) = searchString)
                      [start ..< Suc (len - searchLen)] of
                 None \<Rightarrow> - 1
               | Some i \<Rightarrow> int i))"

definition includes_str :: "string \<Rightarrow> string \<Rightarrow> bool" where
  "includes_str s searchString = (indexOf s searchString 0 \<noteq> - 1)"

definition startsWith :: "string \<Rightarrow> string \<Rightarrow> bool" where
  "startsWith s searchString = (take (length searchString) s = searchString)"

text \<open>
  \<^verbatim>\<open>s.substring(start, end)\<close>: both arguments are clamped to \<open>0..length s\<close> and swapped
  when the first is the larger.
\<close>

definition substring :: "string \<Rightarrow> int \<Rightarrow> int \<Rightarrow> string" where
  "substring s start endIndex =
     (let len = int (length s);
          finalStart = min (max start 0) len;
          finalEnd = min (max endIndex 0) len;
          lo = min finalStart finalEnd;
          hi = max finalStart finalEnd
      in take (nat (hi - lo)) (drop (nat lo) s))"

text \<open>
  \<^verbatim>\<open>s.trim()\<close> removes white space and line terminators from both ends; below 256 these
  are TAB, LF, VT, FF, CR, SPACE and NBSP.
\<close>

definition isWhiteSpace :: "char \<Rightarrow> bool" where
  "isWhiteSpace c = (of_char c \<in> {9, 10, 11, 12, 13, 32, 160 :: nat})"

definition trim :: "string \<Rightarrow> string" where
  "trim s = rev (dropWhile isWhiteSpace (rev (dropWhile isWhiteSpace s)))"


section \<open>Outcomes of a call\<close>

text \<open>
  A call of the source returns a value, throws, or never returns. \<open>Unmodelled\<close> is the answer
  of the model where the source builds a regular expression from a pattern outside the part
  of the pattern language written out below: the model then says nothing about the call.
\<close>

datatype js_error = SyntaxError | StoreError

datatype 'a outcome = Returned 'a | Thrown js_error | Diverged | Unmodelled

section \<open>Regular expressions built from the query\<close>

text \<open>
  \<^verbatim>\<open>scoreMatch\<close> calls \<^verbatim>\<open>new RegExp(queryLower, 'g')\<close> and then \<^verbatim>\<open>new RegExp\<close> on
  the query between two word boundary assertions: the query is read as a pattern. The model
  covers the patterns that are a sequence of
  \<^item> pattern characters: every character but the syntax characters
    \<^verbatim>\<open>^ $ . * + ? ( ) [ ] { } |\<close> and the backslash, matching itself;
  \<^item> the dot, matching one character that is not a line terminator;
  \<^item> the word boundary assertion, a backslash followed by \<^verbatim>\<open>b\<close>.

  The constructor throws a \<^verbatim>\<open>SyntaxError\<close> on a pattern that is not well formed. The model
  reports the cases that are certain while reading from the left through terms of the three
  kinds above: a quantifier \<^verbatim>\<open>* + ?\<close> with nothing to repeat before it, an opening
  \<^verbatim>\<open>(\<close> or \<^verbatim>\<open>[\<close> that is never closed, a closing \<^verbatim>\<open>)\<close> with no opening one, and
  a backslash at the end. Every other use of a syntax character is \<open>Unmodelled\<close>.
\<close>

datatype regex_term = PatternCharacter char | AnyCharacter | WordBoundary

definition isQuantifierPrefix :: "char \<Rightarrow> bool" where
  "isQuantifierPrefix c = (c = CHR ''*'' \<or> c = CHR ''+'' \<or> c = CHR ''?'')"

definition isSyntaxCharacter :: "char \<Rightarrow> bool" where
  "isSyntaxCharacter c = (c = CHR 0x5C \<or> c \<in> set ''^$.*+?()[]{}|'')"

fun consTerm :: "regex_term \<Rightarrow> regex_term list outcome \<Rightarrow> regex_term list outcome" where
  "consTerm t (Returned ts) = Returned (t # ts)"
| "consTerm t (Thrown e) = Thrown e"
| "consTerm t Diverged = Diverged"
| "consTerm t Unmodelled = Unmodelled"

text \<open>
  \<open>parsePattern atom p\<close> reads the rest \<open>p\<close> of a pattern; \<open>atom\<close> says that the term just
  read is an atom, which a quantifier could repeat.
\<close>

fun parsePattern :: "bool \<Rightarrow> string \<Rightarrow> regex_term list outcome" where
  "parsePattern atom [] = Returned []"
| "parsePattern atom (c # cs) =
     (if c = CHR ''.'' then consTerm AnyCharacter (parsePattern True cs)
      else if c = CHR 0x5C then
        (case cs of
           [] \<Rightarrow> Thrown SyntaxError
         | d # ds \<Rightarrow>
             if d = CHR ''b'' then consTerm WordBoundary (parsePattern False ds)
             else Unmodelled)
      else if isQuantifierPrefix c then (if atom then Unmodelled else Thrown SyntaxError)
      else if c = CHR ''('' then
        (if CHR '')'' \<in> set cs then Unmodelled else Thrown SyntaxError)
      else if c = CHR '')'' then Thrown SyntaxError
      else if c = CHR ''['' then
        (if CHR '']'' \<in> set cs then Unmodelled else Thrown SyntaxError)
      else if isSyntaxCharacter c then Unmodelled
      else consTerm (PatternCharacter c) (parsePattern True cs))"

definition newRegExp :: "string \<Rightarrow> regex_term list outcome" where
  "newRegExp pattern = parsePattern False pattern"

definition isLineTerminator :: "char \<Rightarrow> bool" where
  "isLineTerminator c = (of_char c \<in> {10, 13 :: nat})"

definition isWordCharacter :: "char \<Rightarrow> bool" where
  "isWordCharacter c =
     (let n = (of_char c :: nat)
      in (97 \<le> n \<and> n \<le> 122) \<or> (65 \<le> n \<and> n \<le> 90) \<or> (48 \<le> n \<and> n \<le> 57) \<or> n = 95)"

text \<open>\<open>isWordChar s e\<close>: index \<open>e\<close> is inside the input and holds a word character.\<close>

definition isWordChar :: "string \<Rightarrow> int \<Rightarrow> bool" where
  "isWordChar s e = (0 \<le> e \<and> e < int (length s) \<and> isWordCharacter (s ! nat e))"

text \<open>
  \<open>matchTerms ts s e\<close> matches the terms one after the other from index \<open>e\<close> of the input
  and gives the index after the match.
\<close>

fun matchTerms :: "regex_term list \<Rightarrow> string \<Rightarrow> nat \<Rightarrow> nat option" where
  "matchTerms [] s e = Some e"
| "matchTerms (PatternCharacter c # ts) s e =
     (if e < length s \<and> s ! e = c then matchTerms ts s (Suc e) else None)"
| "matchTerms (AnyCharacter # ts) s e =
     (if e < length s \<and> \<not> isLineTerminator (s ! e) then matchTerms ts s (Suc e) else None)"
| "matchTerms (WordBoundary # ts) s e =
     (if isWordChar s (int e - 1) \<noteq> isWordChar s (int e) then matchTerms ts s e else None)"

text \<open>
  \<^verbatim>\<open>RegExpBuiltinExec\<close>: the first index from \<open>lastIndex\<close> up to the length of the input at
  which the pattern matches, with the index after the match.
\<close>

definition regExpExec :: "regex_term list \<Rightarrow> string \<Rightarrow> nat \<Rightarrow> (nat \<times> nat) option" where
  "regExpExec ts s lastIndex =
     (case List.find (\<lambda>i. matchTerms ts s i \<noteq> None) [lastIndex ..< Suc (length s)] of
        None \<Rightarrow> None
      | Some i \<Rightarrow> (case matchTerms ts s i of None \<Rightarrow> None | Some e \<Rightarrow> Some (i, e)))"

lemma matchTerms_advances: "matchTerms ts s e = Some e' \<Longrightarrow> e \<le> e'"
proof (induction ts s e rule: matchTerms.induct)
  case (1 s e)
  then show ?case by simp
next
  case (2 c ts s e)
  then show ?case by (fastforce split: if_splits)
next
  case (3 ts s e)
  then show ?case by (fastforce split: if_splits)
next
  case (4 ts s e)
  then show ?case by (simp split: if_splits)
qed

lemma find_SomeD: "List.find P xs = Some x \<Longrightarrow> x \<in> set xs \<and> P x"
  by (induction xs) (auto split: if_splits)

lemma regExpExec_bounds:
  assumes "regExpExec ts s lastIndex = Some (i, e)"
  shows "lastIndex \<le> i" and "i \<le> length s" and "i \<le> e" and "matchTerms ts s i = Some e"
proof -
  from assms obtain j where
    f: "List.find (\<lambda>i. matchTerms ts s i \<noteq> None) [lastIndex ..< Suc (length s)] = Some j"
    and j: "i = j" "matchTerms ts s j = Some e"
    by (auto simp: regExpExec_def split: option.splits)
  from find_SomeD [OF f] have "j \<in> set [lastIndex ..< Suc (length s)]" by blast
  then show "lastIndex \<le> i" and "i \<le> length s" using j by auto
  from j show "matchTerms ts s i = Some e" by simp
  then show "i \<le> e" by (rule matchTerms_advances)
qed

text \<open>
  \<^verbatim>\<open>s.match(re)\<close> with the flag \<^verbatim>\<open>g\<close>: the matches found by running the expression again
  and again, each run starting at the end of the match before it (one further after an empty
  match). The source takes the length of this list, an empty list when \<^verbatim>\<open>match\<close> gives
  \<^verbatim>\<open>null\<close>.
\<close>

function matchGlobal :: "regex_term list \<Rightarrow> string \<Rightarrow> nat \<Rightarrow> string list" where
  "matchGlobal ts s lastIndex =
     (case regExpExec ts s lastIndex of
        None \<Rightarrow> []
      | Some (i, e) \<Rightarrow>
          take (e - i) (drop i s) # matchGlobal ts s (if e = i then Suc e else e))"
  by pat_completeness auto
termination
proof (relation "measure (\<lambda>(ts, s, lastIndex). Suc (length s) - lastIndex)")
  show "wf (measure (\<lambda>(ts, s, lastIndex). Suc (length s) - lastIndex))" by simp
next
  fix ts s lastIndex x2 i e
  assume "regExpExec ts s lastIndex = Some x2" and "(i, e) = x2"
  then have r: "regExpExec ts s lastIndex = Some (i, e)" by simp
  from regExpExec_bounds [OF r] have "lastIndex \<le> i" "i \<le> length s" "i \<le> e" by auto
  then show "((ts, s, if e = i then Suc e else e), ts, s, lastIndex)
      \<in> measure (\<lambda>(ts, s, lastIndex). Suc (length s) - lastIndex)"
    by auto
qed

section \<open>The relevance scorer\<close>

text \<open>
  \<^verbatim>\<open>scoreMatch\<close> of \<^verbatim>\<open>useSearch\<close>. \<open>contentMatches\<close> and \<open>exactMatches\<close> are the two
  counts of its body, each with the construction of its regular expression, which may throw.
\<close>

fun countMatches :: "regex_term list outcome \<Rightarrow> string \<Rightarrow> nat outcome" where
  "countMatches (Returned re) s = Returned (length (matchGlobal re s 0))"
| "countMatches (Thrown e) s = Thrown e"
| "countMatches Diverged s = Diverged"
| "countMatches Unmodelled s = Unmodelled"

definition contentMatches :: "string \<Rightarrow> string \<Rightarrow> nat outcome" where
  "contentMatches contentLower queryLower = countMatches (newRegExp queryLower) contentLower"

definition exactWordRegex :: "string \<Rightarrow> regex_term list outcome" where
  "exactWordRegex queryLower = newRegExp ([CHR 0x5C, CHR ''b''] @ queryLower @ [CHR 0x5C, CHR ''b''])"

definition exactMatches :: "string \<Rightarrow> string \<Rightarrow> nat outcome" where
  "exactMatches contentLower queryLower = countMatches (exactWordRegex queryLower) contentLower"

definition scoreMatch :: "string \<Rightarrow> string \<Rightarrow> string \<Rightarrow> int outcome" where
  "scoreMatch content title query =
     (let queryLower = toLowerCase query;
          titleLower = toLowerCase title;
          contentLower = toLowerCase content;
          score = 0;
          score = (if includes_str titleLower queryLower
                   then (let score = score + 10
                         in if startsWith titleLower queryLower then score + 5 else score)
                   else score)
      in case contentMatches contentLower queryLower of
           Returned cm \<Rightarrow>
             (let score = score + int cm * 1
              in case exactMatches contentLower queryLower of
                   Returned em \<Rightarrow> Returned (score + int em * 2)
                 | Thrown e \<Rightarrow> Thrown e
                 | Diverged \<Rightarrow> Diverged
                 | Unmodelled \<Rightarrow> Unmodelled)
         | Thrown e \<Rightarrow> Thrown e
         | Diverged \<Rightarrow> Diverged
         | Unmodelled \<Rightarrow> Unmodelled)"

section \<open>The match finder\<close>

text \<open>
  \<^verbatim>\<open>findMatches\<close> of \<^verbatim>\<open>useSearch\<close>. The source's loop runs while \<^verbatim>\<open>indexOf\<close> finds the
  query; with an empty query \<^verbatim>\<open>indexOf\<close> never answers \<open>-1\<close> and the loop does not end,
  so the loop is a partial function and \<open>None\<close> stands for a call that never returns.
\<close>

datatype match_type = Title | Content

record search_match =
  match_type :: match_type
  match_text :: string
  match_index :: int
  match_length :: nat

partial_function (option) findMatches_loop ::
  "string \<Rightarrow> string \<Rightarrow> match_type \<Rightarrow> string \<Rightarrow> string \<Rightarrow> int \<Rightarrow> search_match list
     \<Rightarrow> search_match list option" where
  "findMatches_loop text' query mtype queryLower textLower index matches =
     (if index \<noteq> - 1
      then findMatches_loop text' query mtype queryLower textLower
             (indexOf textLower queryLower (index + 1))
             (matches @
               [\<lparr>match_type = mtype,
                 match_text = substring text' (max 0 (index - 50)) (index + int (length query) + 50),
                 match_index = index,
                 match_length = length query\<rparr>])
      else Some matches)"

declare findMatches_loop.simps [code]

definition findMatches :: "string \<Rightarrow> string \<Rightarrow> match_type \<Rightarrow> search_match list option" where
  "findMatches text' query mtype =
     (let matches = [];
          queryLower = toLowerCase query;
          textLower = toLowerCase text';
          index = indexOf textLower queryLower 0
      in findMatches_loop text' query mtype queryLower textLower index matches)"

text \<open>\<open>windowAt\<close> names the match that the loop appends for an index.\<close>

definition windowAt :: "string \<Rightarrow> string \<Rightarrow> match_type \<Rightarrow> int \<Rightarrow> search_match" where
  "windowAt text' query mtype index =
     \<lparr>match_type = mtype,
      match_text = substring text' (max 0 (index - 50)) (index + int (length query) + 50),
      match_index = index,
      match_length = length query\<rparr>"

section \<open>The search orchestrator\<close>

text \<open>
  A row of the table \<^verbatim>\<open>entry\<close> as \<^verbatim>\<open>getAllNotes\<close> returns it: the name, the content and the
  two timestamps may be null. Timestamps are milliseconds. A null or empty string is falsy
  in the source, and \<^verbatim>\<open>x || ''\<close> replaces it by the empty string.
\<close>

record note_entry =
  note_path :: string
  note_name :: "string option"
  note_content :: "string option"
  note_createdAt :: "int option"
  note_updatedAt :: "int option"

datatype content_type = AllContent | Tasks | Links | PlainText

datatype sort_by = Relevance | ByDate | ByTitle

record search_filters =
  dateRange :: "(int \<times> int) option"
  contentType :: "content_type option"
  sortBy :: "sort_by option"

record search_result =
  result_path :: string
  result_name :: string
  result_content :: string
  result_createdAt :: int
  result_updatedAt :: int
  result_matches :: "search_match list"
  result_score :: int

record search_state =
  isSearching :: bool
  searchResults :: "search_result list"
  searchQuery :: string

definition orEmpty :: "string option \<Rightarrow> string" where
  "orEmpty x = (case x of None \<Rightarrow> [] | Some s \<Rightarrow> s)"

text \<open>The predicate of \<^verbatim>\<open>notes.filter\<close>.\<close>

definition noteFilter :: "string \<Rightarrow> search_filters \<Rightarrow> note_entry \<Rightarrow> bool" where
  "noteFilter query filters n =
     (if orEmpty (note_content n) = [] \<and> orEmpty (note_name n) = [] then False
      else
        let content = orEmpty (note_content n);
            title = orEmpty (note_name n);
            searchText = toLowerCase (title @ '' '' @ content);
            queryLower = toLowerCase query
        in if \<not> includes_str searchText queryLower then False
           else if (case dateRange filters of
                      None \<Rightarrow> False
                    | Some (start, end_) \<Rightarrow>
                        (case (case note_updatedAt n of None \<Rightarrow> note_createdAt n | Some u \<Rightarrow> Some u) of
                           None \<Rightarrow> False
                         | Some date \<Rightarrow> date < start \<or> date > end_))
                then False
           else (case contentType filters of
                   None \<Rightarrow> True
                 | Some AllContent \<Rightarrow> True
                 | Some Tasks \<Rightarrow>
                     \<not> (\<not> includes_str content ''- [ ]'' \<and> \<not> includes_str content ''- [x]'')
                 | Some Links \<Rightarrow>
                     \<not> (\<not> includes_str content ''http'' \<and> \<not> includes_str content ''[''
                        \<and> \<not> includes_str content ''](''  )
                 | Some PlainText \<Rightarrow>
                     \<not> (includes_str content ''- [ ]'' \<or> includes_str content ''- [x]''
                        \<or> includes_str content ''http'')))"

fun bindOutcome :: "'a outcome \<Rightarrow> ('a \<Rightarrow> 'b outcome) \<Rightarrow> 'b outcome" where
  "bindOutcome (Returned x) f = f x"
| "bindOutcome (Thrown e) f = Thrown e"
| "bindOutcome Diverged f = Diverged"
| "bindOutcome Unmodelled f = Unmodelled"

definition returnedOrDiverged :: "'a option \<Rightarrow> 'a outcome" where
  "returnedOrDiverged x = (case x of None \<Rightarrow> Diverged | Some v \<Rightarrow> Returned v)"

text \<open>
  The function of \<^verbatim>\<open>.map\<close>: the matches in the title, the matches in the content (of which
  the first three are kept) and the score. \<open>now\<close> is the value of \<^verbatim>\<open>new Date()\<close>.
\<close>

definition noteResult :: "int \<Rightarrow> string \<Rightarrow> note_entry \<Rightarrow> search_result outcome" where
  "noteResult now query n =
     (let content = orEmpty (note_content n);
          title = orEmpty (note_name n)
      in bindOutcome (returnedOrDiverged (findMatches title query Title)) (\<lambda>titleMatches.
         bindOutcome (returnedOrDiverged (findMatches content query Content)) (\<lambda>contentMatches.
         bindOutcome (scoreMatch content title query) (\<lambda>score.
           Returned
             \<lparr>result_path = note_path n,
              result_name = title,
              result_content = content,
              result_createdAt = (case note_createdAt n of None \<Rightarrow> now | Some d \<Rightarrow> d),
              result_updatedAt = (case note_updatedAt n of None \<Rightarrow> now | Some d \<Rightarrow> d),
              result_matches = titleMatches @ take 3 contentMatches,
              result_score = score\<rparr>))))"

fun mapOutcome :: "('a \<Rightarrow> 'b outcome) \<Rightarrow> 'a list \<Rightarrow> 'b list outcome" where
  "mapOutcome f [] = Returned []"
| "mapOutcome f (x # xs) =
     bindOutcome (f x) (\<lambda>y. bindOutcome (mapOutcome f xs) (\<lambda>ys. Returned (y # ys)))"

text \<open>
  The comparison function of \<^verbatim>\<open>.sort\<close>. \<^verbatim>\<open>localeCompare\<close> depends on the locale of the host
  and is a parameter.
\<close>

definition compareResults ::
  "(string \<Rightarrow> string \<Rightarrow> int) \<Rightarrow> sort_by option \<Rightarrow> search_result \<Rightarrow> search_result \<Rightarrow> int" where
  "compareResults localeCompare sb a b =
     (case sb of
        Some ByDate \<Rightarrow> result_updatedAt b - result_updatedAt a
      | Some ByTitle \<Rightarrow> localeCompare (result_name a) (result_name b)
      | Some Relevance \<Rightarrow> result_score b - result_score a
      | None \<Rightarrow> result_score b - result_score a)"

text \<open>
  \<^verbatim>\<open>Array.prototype.sort\<close> is stable; it is written here as an insertion sort that keeps
  the order of elements the comparison function does not separate.
\<close>

fun insertSorted :: "('a \<Rightarrow> 'a \<Rightarrow> int) \<Rightarrow> 'a \<Rightarrow> 'a list \<Rightarrow> 'a list" where
  "insertSorted cmp x [] = [x]"
| "insertSorted cmp x (y # ys) =
     (if cmp x y \<le> 0 then x # y # ys else y # insertSorted cmp x ys)"

definition stableSort :: "('a \<Rightarrow> 'a \<Rightarrow> int) \<Rightarrow> 'a list \<Rightarrow> 'a list" where
  "stableSort cmp xs = foldr (insertSorted cmp) xs []"

text \<open>What the \<^verbatim>\<open>try\<close> block computes from the notes read: filter, map, sort, slice.\<close>

definition processNotes ::
  "int \<Rightarrow> (string \<Rightarrow> string \<Rightarrow> int) \<Rightarrow> string \<Rightarrow> search_filters \<Rightarrow> note_entry list
     \<Rightarrow> search_result list outcome" where
  "processNotes now localeCompare query filters notes =
     bindOutcome (mapOutcome (noteResult now query) (filter (noteFilter query filters) notes))
       (\<lambda>results. Returned (take 50 (stableSort (compareResults localeCompare (sortBy filters)) results)))"

text \<open>
  The \<^verbatim>\<open>try\<close> block: \<^verbatim>\<open>await getAllNotes()\<close>, whose outcome \<open>getAllNotes\<close> is a parameter (the
  notes, a rejection, or a promise that never settles), then the processing.
\<close>

definition tryBlock ::
  "note_entry list outcome \<Rightarrow> int \<Rightarrow> (string \<Rightarrow> string \<Rightarrow> int) \<Rightarrow> string \<Rightarrow> search_filters
     \<Rightarrow> search_result list outcome" where
  "tryBlock getAllNotes now localeCompare query filters =
     bindOutcome getAllNotes (processNotes now localeCompare query filters)"

text \<open>
  \<^verbatim>\<open>searchNotes\<close>: the state of the hook is passed in and the state after the call is the
  value returned; \<open>Thrown\<close> would be a rejection of the promise that \<^verbatim>\<open>searchNotes\<close> returns.
\<close>

definition searchNotes ::
  "note_entry list outcome \<Rightarrow> int \<Rightarrow> (string \<Rightarrow> string \<Rightarrow> int) \<Rightarrow> string \<Rightarrow> search_filters
     \<Rightarrow> search_state \<Rightarrow> search_state outcome" where
  "searchNotes getAllNotes now localeCompare query filters st =
     (if trim query = [] then Returned (st\<lparr>searchResults := [], searchQuery := []\<rparr>)
      else
        let st = st\<lparr>isSearching := True\<rparr>;
            st = st\<lparr>searchQuery := query\<rparr>
        in case tryBlock getAllNotes now localeCompare query filters of
             Returned results \<Rightarrow> Returned (st\<lparr>searchResults := results, isSearching := False\<rparr>)
           | Thrown error \<Rightarrow> Returned (st\<lparr>searchResults := [], isSearching := False\<rparr>)
           | Diverged \<Rightarrow> Diverged
           | Unmodelled \<Rightarrow> Unmodelled)"

section \<open>The auto-save coordinator\<close>

text \<open>
  \<^verbatim>\<open>useAutoSave\<close> keeps three refs (\<^verbatim>\<open>timeoutRef\<close>, \<^verbatim>\<open>lastSavedContentRef\<close>,
  \<^verbatim>\<open>isSavingRef\<close>) and reads the props of the render it runs in. The model puts the refs,
  the props of the latest render and the part of the host that the hook acts on into one
  state: the pending timeouts (each with the time at which it is due and with the
  \<^verbatim>\<open>content\<close> and \<^verbatim>\<open>enabled\<close> that its callback \<^verbatim>\<open>debouncedSave\<close> closed over), the clock in
  milliseconds, the calls of \<^verbatim>\<open>onSave\<close> that have not settled yet (each with the
  \<^verbatim>\<open>contentToSave\<close> its continuation holds) and a log of every call of \<^verbatim>\<open>onSave\<close> with the
  time of the call. Timer ids are positive, so a ref that holds one is truthy.
\<close>

record timer =
  timer_id :: nat
  timer_due :: nat
  closure_content :: string
  closure_enabled :: bool

record coordinator =
  timeoutRef :: "nat option"
  lastSavedContentRef :: string
  isSavingRef :: bool
  prop_content :: string
  prop_enabled :: bool
  prop_delay :: nat
  hasCleanup :: bool
  pendingTimers :: "timer list"
  nextTimerId :: nat
  clock :: nat
  inFlight :: "string list"
  persistCalls :: "(nat \<times> string) list"

text \<open>The state before the first render; \<^verbatim>\<open>saveNow\<close> does not exist yet, so \<open>prop_enabled\<close> is off.\<close>

definition initial :: coordinator where
  "initial =
     \<lparr>timeoutRef = None, lastSavedContentRef = [], isSavingRef = False,
      prop_content = [], prop_enabled = False, prop_delay = 2000, hasCleanup = False,
      pendingTimers = [], nextTimerId = 1, clock = 0, inFlight = [], persistCalls = []\<rparr>"

text \<open>\<^verbatim>\<open>if (timeoutRef.current) clearTimeout(timeoutRef.current)\<close>; the ref keeps the id.\<close>

definition clearTimeoutRef :: "coordinator \<Rightarrow> coordinator" where
  "clearTimeoutRef s =
     (case timeoutRef s of
        None \<Rightarrow> s
      | Some i \<Rightarrow> s\<lparr>pendingTimers := filter (\<lambda>tm. timer_id tm \<noteq> i) (pendingTimers s)\<rparr>)"

text \<open>
  \<^verbatim>\<open>debouncedSave\<close> up to its \<^verbatim>\<open>await\<close>, for the \<^verbatim>\<open>content\<close> and \<^verbatim>\<open>enabled\<close> it closed over:
  the call of \<^verbatim>\<open>onSave\<close> is logged and left pending.
\<close>

definition debouncedSave :: "string \<Rightarrow> bool \<Rightarrow> coordinator \<Rightarrow> coordinator" where
  "debouncedSave content enabled s =
     (if isSavingRef s \<or> \<not> enabled then s
      else
        let contentToSave = trim content
        in if contentToSave = lastSavedContentRef s then s
           else s\<lparr>isSavingRef := True,
                  persistCalls := persistCalls s @ [(clock s, contentToSave)],
                  inFlight := inFlight s @ [contentToSave]\<rparr>)"

text \<open>
  The rest of \<^verbatim>\<open>debouncedSave\<close>, run when the \<open>k\<close>-th pending call of \<^verbatim>\<open>onSave\<close> settles:
  the marker is set when the call succeeded, and \<^verbatim>\<open>isSavingRef\<close> is reset in any case.
\<close>

definition settle :: "nat \<Rightarrow> bool \<Rightarrow> coordinator \<Rightarrow> coordinator" where
  "settle k ok s =
     (if k < length (inFlight s)
      then let contentToSave = inFlight s ! k;
               s = s\<lparr>inFlight := take k (inFlight s) @ drop (Suc k) (inFlight s)\<rparr>;
               s = (if ok then s\<lparr>lastSavedContentRef := contentToSave\<rparr> else s)
           in s\<lparr>isSavingRef := False\<rparr>
      else s)"

text \<open>The body of the effect, with the props of the render it belongs to.\<close>

definition effect :: "coordinator \<Rightarrow> coordinator" where
  "effect s =
     (if \<not> prop_enabled s \<or> trim (prop_content s) = [] then s\<lparr>hasCleanup := False\<rparr>
      else
        let s = clearTimeoutRef s;
            s = s\<lparr>pendingTimers := pendingTimers s @
                       [\<lparr>timer_id = nextTimerId s, timer_due = clock s + prop_delay s,
                         closure_content = prop_content s, closure_enabled = prop_enabled s\<rparr>],
                   timeoutRef := Some (nextTimerId s),
                   nextTimerId := Suc (nextTimerId s)\<rparr>
        in s\<lparr>hasCleanup := True\<rparr>)"

text \<open>
  A render in which a dependency of the effect has changed: the cleanup of the effect
  before (if it returned one) runs, then the effect with the new props.
\<close>

definition render :: "string \<Rightarrow> nat \<Rightarrow> bool \<Rightarrow> coordinator \<Rightarrow> coordinator" where
  "render content delay enabled s =
     (let s = (if hasCleanup s then clearTimeoutRef s else s);
          s = s\<lparr>prop_content := content, prop_delay := delay, prop_enabled := enabled\<rparr>
      in effect s)"

definition saveNow :: "coordinator \<Rightarrow> coordinator" where
  "saveNow s = debouncedSave (prop_content s) (prop_enabled s) (clearTimeoutRef s)"

text \<open>
  Time passes up to \<open>t\<close>: the timeouts due by then fire in the order of their due times,
  each at its due time.
\<close>

definition fireTimer :: "timer \<Rightarrow> coordinator \<Rightarrow> coordinator" where
  "fireTimer tm s =
     debouncedSave (closure_content tm) (closure_enabled tm) (s\<lparr>clock := max (clock s) (timer_due tm)\<rparr>)"

definition advanceTo :: "nat \<Rightarrow> coordinator \<Rightarrow> coordinator" where
  "advanceTo t s =
     (let due = filter (\<lambda>tm. timer_due tm \<le> t) (pendingTimers s);
          s = s\<lparr>pendingTimers := filter (\<lambda>tm. \<not> timer_due tm \<le> t) (pendingTimers s)\<rparr>;
          s = fold fireTimer (sort_key timer_due due) s
      in s\<lparr>clock := max (clock s) t\<rparr>)"

datatype event = Render string nat bool | Tick nat | SaveNow | Settle nat bool

fun step :: "event \<Rightarrow> coordinator \<Rightarrow> coordinator" where
  "step (Render content delay enabled) s = render content delay enabled s"
| "step (Tick t) s = advanceTo t s"
| "step SaveNow s = saveNow s"
| "step (Settle k ok) s = settle k ok s"

definition run :: "event list \<Rightarrow> coordinator \<Rightarrow> coordinator" where
  "run es s = fold step es s"

text \<open>The events in which a call of \<^verbatim>\<open>onSave\<close> completes with success.\<close>

fun isSuccess :: "event \<Rightarrow> bool" where
  "isSuccess (Settle k ok) = ok"
| "isSuccess (Render content delay enabled) = False"
| "isSuccess (Tick t) = False"
| "isSuccess SaveNow = False"

text \<open>
  What holds in every state the coordinator reaches: \<^verbatim>\<open>isSavingRef\<close> is set exactly while
  one call of \<^verbatim>\<open>onSave\<close> is pending; at most one timeout is pending, it is the one
  \<^verbatim>\<open>timeoutRef\<close> names and its callback closed over the props of the latest render; the marker
  and the arguments of \<^verbatim>\<open>onSave\<close> are trimmed strings, and the marker is empty or an argument
  of a call made before.
\<close>

definition coordinator_inv :: "coordinator \<Rightarrow> bool" where
  "coordinator_inv s \<longleftrightarrow>
     (if isSavingRef s then length (inFlight s) = 1 else inFlight s = [])
     \<and> length (pendingTimers s) \<le> 1
     \<and> (\<forall>tm \<in> set (pendingTimers s).
           timeoutRef s = Some (timer_id tm) \<and> closure_content tm = prop_content s
           \<and> closure_enabled tm = prop_enabled s \<and> clock s \<le> timer_due tm)
     \<and> (pendingTimers s \<noteq> [] \<longrightarrow> hasCleanup s)
     \<and> trim (lastSavedContentRef s) = lastSavedContentRef s
     \<and> (\<forall>p \<in> set (inFlight s). trim p = p)
     \<and> (\<forall>p \<in> set (inFlight s). p \<in> snd ` set (persistCalls s))
     \<and> (lastSavedContentRef s = [] \<or> lastSavedContentRef s \<in> snd ` set (persistCalls s))
     \<and> (\<forall>c \<in> set (persistCalls s). trim (snd c) = snd c)"

section \<open>Occurrences of a query, as the specification counts them\<close>

text \<open>
  The notions the specification uses to say what the scorer counts. \<open>occursAt q s i\<close>: the
  string \<open>q\<close> stands in \<open>s\<close> at index \<open>i\<close>. \<open>wholeWordAt q s i\<close>: it does, with a word
  boundary on each side. \<open>occurrences\<close> lists all the start positions, overlapping
  occurrences included. \<open>scanCount P len n i\<close> counts what a scan from the left finds from
  index \<open>i\<close> on, in an input of length \<open>n\<close>, when it resumes at the end of each match of
  length \<open>len\<close>: the occurrences that do not overlap one found before.
\<close>

definition occursAt :: "string \<Rightarrow> string \<Rightarrow> nat \<Rightarrow> bool" where
  "occursAt q s i = (i + length q \<le> length s \<and> take (length q) (drop i s) = q)"

definition wordBoundaryAt :: "string \<Rightarrow> nat \<Rightarrow> bool" where
  "wordBoundaryAt s e = (isWordChar s (int e - 1) \<noteq> isWordChar s (int e))"

definition wholeWordAt :: "string \<Rightarrow> string \<Rightarrow> nat \<Rightarrow> bool" where
  "wholeWordAt q s i = (occursAt q s i \<and> wordBoundaryAt s i \<and> wordBoundaryAt s (i + length q))"

definition occurrences :: "string \<Rightarrow> string \<Rightarrow> nat list" where
  "occurrences q s = filter (occursAt q s) [0 ..< Suc (length s)]"

definition wholeWordOccurrences :: "string \<Rightarrow> string \<Rightarrow> nat list" where
  "wholeWordOccurrences q s = filter (wholeWordAt q s) [0 ..< Suc (length s)]"

function scanCount :: "(nat \<Rightarrow> bool) \<Rightarrow> nat \<Rightarrow> nat \<Rightarrow> nat \<Rightarrow> nat" where
  "scanCount P len n i =
     (if len = 0 \<or> n < i + len then 0
      else if P i then Suc (scanCount P len n (i + len))
      else scanCount P len n (Suc i))"
  by pat_completeness auto
termination
  by (relation "measure (\<lambda>(P, len, n, i). Suc n - i)") auto

declare matchGlobal.simps [simp del]
declare scanCount.simps [simp del]

section \<open>Queries without syntax characters\<close>

lemma not_syntax_cases:
  assumes "\<not> isSyntaxCharacter c"
  shows "c \<noteq> CHR ''.''" "c \<noteq> CHR 0x5C" "\<not> isQuantifierPrefix c" "c \<noteq> CHR ''(''"
    "c \<noteq> CHR '')''" "c \<noteq> CHR ''[''"
  using assms by (auto simp: isSyntaxCharacter_def isQuantifierPrefix_def)

lemma parsePattern_literal_append:
  assumes "\<forall>c \<in> set q. \<not> isSyntaxCharacter c" and "parsePattern True r = Returned ts" and "q \<noteq> []"
  shows "parsePattern atom (q @ r) = Returned (map PatternCharacter q @ ts)"
  using assms
proof (induction q arbitrary: atom)
  case Nil
  then show ?case by simp
next
  case (Cons c q)
  then have c: "\<not> isSyntaxCharacter c" by simp
  show ?case
  proof (cases "q = []")
    case True
    with Cons.prems c show ?thesis by (simp add: not_syntax_cases)
  next
    case False
    with Cons have "parsePattern True (q @ r) = Returned (map PatternCharacter q @ ts)" by simp
    with c show ?thesis by (simp add: not_syntax_cases)
  qed
qed

lemma parsePattern_literal:
  assumes "\<forall>c \<in> set q. \<not> isSyntaxCharacter c"
  shows "parsePattern atom q = Returned (map PatternCharacter q)"
  using assms by (induction q arbitrary: atom) (simp_all add: not_syntax_cases)

lemma isSyntaxCharacter_code:
  "isSyntaxCharacter c \<longleftrightarrow>
     (of_char c :: nat) \<in> {92, 94, 36, 46, 42, 43, 63, 40, 41, 91, 93, 123, 125, 124}"
proof -
  have "\<And>d. c = d \<longleftrightarrow> (of_char c :: nat) = of_char d" by auto
  then show ?thesis
    unfolding isSyntaxCharacter_def by (simp only: set_simps insert_iff empty_iff) simp
qed

lemma toLowerCase_char_code:
  "(of_char (toLowerCase_char c) :: nat) =
     (let n = of_char c
      in if (65 \<le> n \<and> n \<le> 90) \<or> (192 \<le> n \<and> n \<le> 214) \<or> (216 \<le> n \<and> n \<le> 222)
         then n + 32 else n)"
  by (simp add: toLowerCase_char_def Let_def)

lemma toLowerCase_char_not_syntax:
  "\<not> isSyntaxCharacter c \<Longrightarrow> \<not> isSyntaxCharacter (toLowerCase_char c)"
  unfolding isSyntaxCharacter_code toLowerCase_char_code by (auto simp: Let_def)

lemma toLowerCase_literal:
  "\<forall>c \<in> set q. \<not> isSyntaxCharacter c \<Longrightarrow> \<forall>c \<in> set (toLowerCase q). \<not> isSyntaxCharacter c"
  by (auto simp: toLowerCase_def toLowerCase_char_not_syntax)

lemma length_toLowerCase: "length (toLowerCase s) = length s"
  by (simp add: toLowerCase_def)

lemma toLowerCase_eq_Nil: "toLowerCase s = [] \<longleftrightarrow> s = []"
  by (simp add: toLowerCase_def)

lemma matchTerms_literal:
  "e \<le> length s \<Longrightarrow> matchTerms (map PatternCharacter q @ ts) s e =
     (if occursAt q s e then matchTerms ts s (e + length q) else None)"
proof (induction q arbitrary: e)
  case Nil
  then show ?case by (simp add: occursAt_def)
next
  case (Cons c q)
  have "occursAt (c # q) s e \<longleftrightarrow> e < length s \<and> s ! e = c \<and> occursAt q s (Suc e)"
  proof (cases "e < length s")
    case True
    then have "drop e s = s ! e # drop (Suc e) s" by (simp add: Cons_nth_drop_Suc)
    with True show ?thesis by (auto simp: occursAt_def)
  next
    case False
    then show ?thesis by (simp add: occursAt_def)
  qed
  with Cons show ?case by simp
qed

lemma regExpExec_here:
  assumes "matchTerms ts s i = Some e" and "i \<le> length s"
  shows "regExpExec ts s i = Some (i, e)"
proof -
  from assms(2) have "[i ..< Suc (length s)] = i # [Suc i ..< Suc (length s)]"
    by (simp add: upt_conv_Cons)
  with assms(1) show ?thesis by (simp add: regExpExec_def)
qed

lemma regExpExec_skip:
  assumes "matchTerms ts s i = None"
  shows "regExpExec ts s i = regExpExec ts s (Suc i)"
proof (cases "i \<le> length s")
  case True
  then have "[i ..< Suc (length s)] = i # [Suc i ..< Suc (length s)]"
    by (simp add: upt_conv_Cons)
  with assms show ?thesis by (simp add: regExpExec_def)
next
  case False
  then show ?thesis by (simp add: regExpExec_def)
qed

lemma regExpExec_none:
  assumes "\<And>j. i \<le> j \<Longrightarrow> j \<le> length s \<Longrightarrow> matchTerms ts s j = None"
  shows "regExpExec ts s i = None"
proof -
  have "List.find (\<lambda>i. matchTerms ts s i \<noteq> None) [i ..< Suc (length s)] = None"
    using assms by (auto simp: find_None_iff)
  then show ?thesis by (simp add: regExpExec_def)
qed

text \<open>
  When the pattern matches at an index exactly where \<open>P\<close> holds, always over \<open>len\<close>
  characters, the global match finds what the scan counts.
\<close>

lemma matchGlobal_scanCount:
  assumes m: "\<And>j. j \<le> length s \<Longrightarrow> matchTerms ts s j = (if P j then Some (j + len) else None)"
    and P: "\<And>j. P j \<Longrightarrow> j + len \<le> length s"
    and len: "0 < len"
  shows "length (matchGlobal ts s i) = scanCount P len (length s) i"
proof (induction "Suc (length s) - i" arbitrary: i rule: less_induct)
  case less
  note unfold = matchGlobal.simps [of ts s i] scanCount.simps [of P len "length s" i]
  show ?case
  proof (cases "length s < i + len")
    case True
    have "matchTerms ts s j = None" if "i \<le> j" and "j \<le> length s" for j
      using that True P [of j] m [of j] by (cases "P j") auto
    then have "regExpExec ts s i = None" by (rule regExpExec_none)
    with True show ?thesis by (simp add: unfold)
  next
    case False
    show ?thesis
    proof (cases "P i")
      case True
      with m False have "matchTerms ts s i = Some (i + len)" by simp
      with False have "regExpExec ts s i = Some (i, i + len)" by (intro regExpExec_here) auto
      moreover have "length (matchGlobal ts s (i + len)) = scanCount P len (length s) (i + len)"
        using False len by (intro less) auto
      ultimately show ?thesis using True False len by (simp add: unfold)
    next
      case notP: False
      with m False have "matchTerms ts s i = None" by simp
      then have "regExpExec ts s i = regExpExec ts s (Suc i)" by (rule regExpExec_skip)
      then have "matchGlobal ts s i = matchGlobal ts s (Suc i)"
        by (simp only: matchGlobal.simps [of ts s i] matchGlobal.simps [of ts s "Suc i"])
      moreover have "length (matchGlobal ts s (Suc i)) = scanCount P len (length s) (Suc i)"
        using False len by (intro less) auto
      ultimately show ?thesis using notP False len
        by (simp add: scanCount.simps [of P len "length s" i])
    qed
  qed
qed

lemma contentMatches_literal:
  assumes "\<forall>c \<in> set q. \<not> isSyntaxCharacter c" and "q \<noteq> []"
  shows "contentMatches s q = Returned (scanCount (occursAt q s) (length q) (length s) 0)"
proof -
  have "matchTerms (map PatternCharacter q) s j = (if occursAt q s j then Some (j + length q) else None)"
    if "j \<le> length s" for j
    using matchTerms_literal [OF that, of q "[]"] by simp
  then have "length (matchGlobal (map PatternCharacter q) s 0)
      = scanCount (occursAt q s) (length q) (length s) 0"
    using assms(2) by (intro matchGlobal_scanCount) (auto simp: occursAt_def)
  then show ?thesis
    using assms(1) by (simp add: contentMatches_def newRegExp_def parsePattern_literal)
qed

lemma exactWordRegex_literal:
  assumes "\<forall>c \<in> set q. \<not> isSyntaxCharacter c"
  shows "exactWordRegex q = Returned (WordBoundary # map PatternCharacter q @ [WordBoundary])"
proof (cases "q = []")
  case True
  then show ?thesis by (simp add: exactWordRegex_def newRegExp_def)
next
  case False
  have "parsePattern True [CHR 0x5C, CHR ''b''] = Returned [WordBoundary]" by simp
  from parsePattern_literal_append [OF assms this False]
  show ?thesis by (simp add: exactWordRegex_def newRegExp_def)
qed

lemma exactMatches_literal:
  assumes "\<forall>c \<in> set q. \<not> isSyntaxCharacter c" and "q \<noteq> []"
  shows "exactMatches s q = Returned (scanCount (wholeWordAt q s) (length q) (length s) 0)"
proof -
  let ?ts = "WordBoundary # map PatternCharacter q @ [WordBoundary]"
  have "matchTerms ?ts s j = (if wholeWordAt q s j then Some (j + length q) else None)"
    if "j \<le> length s" for j
    using matchTerms_literal [OF that, of q "[WordBoundary]"]
    by (simp add: wholeWordAt_def wordBoundaryAt_def)
  then have "length (matchGlobal ?ts s 0) = scanCount (wholeWordAt q s) (length q) (length s) 0"
    using assms(2) by (intro matchGlobal_scanCount) (auto simp: wholeWordAt_def occursAt_def)
  then show ?thesis
    using assms(1) by (simp add: exactMatches_def exactWordRegex_literal)
qed

text \<open>A title that starts with the query contains it.\<close>

lemma startsWith_includes: "startsWith s q \<Longrightarrow> includes_str s q"
proof -
  assume sw: "startsWith s q"
  then have t: "take (length q) s = q" by (simp add: startsWith_def)
  then have "length (take (length q) s) = length q" by simp
  then have le: "length q \<le> length s" by simp
  have "\<exists>i \<in> set [0 ..< Suc (length s - length q)]. take (length q) (drop i s) = q"
    using t by (intro bexI [of _ 0]) auto
  then have "List.find (\<lambda>i. take (length q) (drop i s) = q) [0 ..< Suc (length s - length q)] \<noteq> None"
    by (simp only: find_None_iff) blast
  with le show ?thesis by (auto simp: includes_str_def indexOf_def split: option.splits)
qed

text \<open>The score, once both counts are there.\<close>

lemma scoreMatch_Returned:
  assumes "scoreMatch content title query = Returned s"
  shows "\<exists>cm em.
    contentMatches (toLowerCase content) (toLowerCase query) = Returned cm
    \<and> exactMatches (toLowerCase content) (toLowerCase query) = Returned em
    \<and> s = (if startsWith (toLowerCase title) (toLowerCase query) then 15
          else if includes_str (toLowerCase title) (toLowerCase query) then 10 else 0)
         + int cm + 2 * int em"
  using assms startsWith_includes [of "toLowerCase title" "toLowerCase query"]
  by (auto simp: scoreMatch_def Let_def split: outcome.splits if_splits)

lemma scoreMatch_counts:
  assumes "contentMatches (toLowerCase content) (toLowerCase query) = Returned cm"
    and "exactMatches (toLowerCase content) (toLowerCase query) = Returned em"
  shows "scoreMatch content title query =
     Returned ((if startsWith (toLowerCase title) (toLowerCase query) then 15
          else if includes_str (toLowerCase title) (toLowerCase query) then 10 else 0)
         + int cm + 2 * int em)"
  using assms startsWith_includes [of "toLowerCase title" "toLowerCase query"]
  by (auto simp: scoreMatch_def Let_def)

section \<open>Claims about the scorer\<close>

text \<open>
  C1. The claim: for a query with characters that have a special meaning in patterns,
  \<^verbatim>\<open>scoreMatch\<close> and \<^verbatim>\<open>findMatches\<close> do not throw and count literal occurrences only; for
  the content \<^verbatim>\<open>a.b.c\<close> and the query \<^verbatim>\<open>.\<close> the raw count is 2.
  The code of \<^verbatim>\<open>scoreMatch\<close> hands the query to \<^verbatim>\<open>new RegExp\<close> as it is (only
  \<^verbatim>\<open>highlightText\<close> escapes it first): the dot matches each of the five characters of
  \<^verbatim>\<open>a.b.c\<close>, between word boundaries as well, so the raw count is 5 and the score 15 where
  literal counting gives 2 and 6; and the query \<^verbatim>\<open>(\<close> makes the constructor throw.
\<close>

theorem scoreMatch_query_read_as_pattern:
  "contentMatches (toLowerCase ''a.b.c'') (toLowerCase ''.'') = Returned 5
   \<and> scoreMatch ''a.b.c'' ''note'' ''.'' = Returned 15
   \<and> scoreMatch ''f(x)'' ''note'' ''('' = Thrown SyntaxError"
  by code_simp

text \<open>
  C2. The claim: for a non-empty query the content adds 1 point per occurrence of the query,
  counted at every start position (overlapping occurrences included), and 2 points per
  whole-word occurrence.
  The counts are the lengths of global matches, and a global match resumes at the end of the
  match before it: occurrences that overlap one found before are not counted. For the
  content \<^verbatim>\<open>aaa\<close> and the query \<^verbatim>\<open>aa\<close> there are two start positions and no whole word,
  and the score is 1. Amended: for a non-empty query without syntax characters, the content
  adds 1 point per occurrence found by a scan from the left that resumes at the end of each
  occurrence found, and 2 points per whole-word occurrence found by a scan of the same kind;
  the two scans are independent and their points add up.
\<close>

theorem scoreMatch_content_portion:
  assumes "query \<noteq> []" and "\<forall>c \<in> set query. \<not> isSyntaxCharacter c"
  shows "scoreMatch content title query =
     Returned ((if startsWith (toLowerCase title) (toLowerCase query) then 15
                else if includes_str (toLowerCase title) (toLowerCase query) then 10 else 0)
       + 1 * int (scanCount (occursAt (toLowerCase query) (toLowerCase content))
                    (length query) (length content) 0)
       + 2 * int (scanCount (wholeWordAt (toLowerCase query) (toLowerCase content))
                    (length query) (length content) 0))"
proof -
  let ?q = "toLowerCase query" and ?c = "toLowerCase content"
  from assms have lit: "\<forall>c \<in> set ?q. \<not> isSyntaxCharacter c" and ne: "?q \<noteq> []"
    by (simp_all add: toLowerCase_literal toLowerCase_eq_Nil)
  from contentMatches_literal [OF lit ne, of ?c] exactMatches_literal [OF lit ne, of ?c]
  show ?thesis by (simp add: scoreMatch_counts length_toLowerCase)
qed

text \<open>
  The content \<^verbatim>\<open>aaa aa\<close> and the query \<^verbatim>\<open>aa\<close>: the scan finds the occurrences at 0 and 4,
  not the one at 1; the one at 4 is a whole word.
\<close>

theorem scoreMatch_content_portion_witness:
  "scoreMatch ''aaa aa'' ''notes'' ''aa'' = Returned 4"
proof -
  have "scanCount (occursAt (toLowerCase ''aa'') (toLowerCase ''aaa aa'')) (length ''aa'') (length ''aaa aa'') 0 = 2"
    by code_simp
  moreover have "scanCount (wholeWordAt (toLowerCase ''aa'') (toLowerCase ''aaa aa'')) (length ''aa'') (length ''aaa aa'') 0 = 1"
    by code_simp
  moreover have "\<not> startsWith (toLowerCase ''notes'') (toLowerCase ''aa'')" by code_simp
  moreover have "\<not> includes_str (toLowerCase ''notes'') (toLowerCase ''aa'')" by code_simp
  moreover have "''aa'' \<noteq> []" "\<forall>c \<in> set ''aa''. \<not> isSyntaxCharacter c" by code_simp+
  ultimately show ?thesis
    using scoreMatch_content_portion [of "''aa''" "''aaa aa''" "''notes''"] by simp
qed

text \<open>The claim as stated fails where occurrences overlap.\<close>

theorem scoreMatch_overlap_counterexample:
  "length (occurrences (toLowerCase ''aa'') (toLowerCase ''aaa'')) = 2
   \<and> length (wholeWordOccurrences (toLowerCase ''aa'') (toLowerCase ''aaa'')) = 0
   \<and> \<not> includes_str (toLowerCase ''notes'') (toLowerCase ''aa'')
   \<and> scoreMatch ''aaa'' ''notes'' ''aa'' = Returned 1"
  by code_simp

text \<open>
  C3. The title adds 10 points when it contains the query and 5 more when it starts with it
  (a title that starts with the query contains it, so a prefix match adds 15), and nothing
  otherwise; the score starts at 0 and is never negative. This holds whenever \<^verbatim>\<open>scoreMatch\<close>
  returns, and it returns for every non-empty query without syntax characters.
\<close>

theorem scoreMatch_title_portion:
  "(scoreMatch content title query = Returned s \<longrightarrow>
      0 \<le> s \<and>
      (\<exists>cm em. contentMatches (toLowerCase content) (toLowerCase query) = Returned cm
         \<and> exactMatches (toLowerCase content) (toLowerCase query) = Returned em
         \<and> s = (if includes_str (toLowerCase title) (toLowerCase query)
                 then 10 + (if startsWith (toLowerCase title) (toLowerCase query) then 5 else 0)
                 else 0)
               + int cm * 1 + int em * 2))
   \<and> (startsWith (toLowerCase title) (toLowerCase query)
        \<longrightarrow> includes_str (toLowerCase title) (toLowerCase query))
   \<and> ((\<forall>c \<in> set query. \<not> isSyntaxCharacter c) \<and> query \<noteq> []
        \<longrightarrow> (\<exists>s. scoreMatch content title query = Returned s))"
proof (intro conjI impI)
  assume r: "scoreMatch content title query = Returned s"
  from scoreMatch_Returned [OF r] obtain cm em where
    c: "contentMatches (toLowerCase content) (toLowerCase query) = Returned cm"
    and e: "exactMatches (toLowerCase content) (toLowerCase query) = Returned em"
    and s: "s = (if startsWith (toLowerCase title) (toLowerCase query) then 15
          else if includes_str (toLowerCase title) (toLowerCase query) then 10 else 0)
         + int cm + 2 * int em"
    by blast
  from s show "0 \<le> s" by simp
  from c e s startsWith_includes [of "toLowerCase title" "toLowerCase query"]
  show "\<exists>cm em. contentMatches (toLowerCase content) (toLowerCase query) = Returned cm
         \<and> exactMatches (toLowerCase content) (toLowerCase query) = Returned em
         \<and> s = (if includes_str (toLowerCase title) (toLowerCase query)
                 then 10 + (if startsWith (toLowerCase title) (toLowerCase query) then 5 else 0)
                 else 0)
               + int cm * 1 + int em * 2"
    by auto
next
  assume "startsWith (toLowerCase title) (toLowerCase query)"
  then show "includes_str (toLowerCase title) (toLowerCase query)" by (rule startsWith_includes)
next
  assume a: "(\<forall>c \<in> set query. \<not> isSyntaxCharacter c) \<and> query \<noteq> []"
  let ?q = "toLowerCase query" and ?c = "toLowerCase content"
  from a have lit: "\<forall>c \<in> set ?q. \<not> isSyntaxCharacter c"
    using toLowerCase_literal [of query] by blast
  from a have ne: "?q \<noteq> []" by (simp add: toLowerCase_eq_Nil)
  from scoreMatch_counts [OF contentMatches_literal [OF lit ne, of ?c] exactMatches_literal [OF lit ne, of ?c]]
  show "\<exists>s. scoreMatch content title query = Returned s" by blast
qed

theorem scoreMatch_title_portion_witness:
  "scoreMatch ''milk eggs bread'' ''Shopping List'' ''Shopping'' = Returned 15
   \<and> startsWith (toLowerCase ''Shopping List'') (toLowerCase ''Shopping'')
   \<and> includes_str (toLowerCase ''Shopping List'') (toLowerCase ''Shopping'')
   \<and> contentMatches (toLowerCase ''milk eggs bread'') (toLowerCase ''Shopping'') = Returned 0
   \<and> exactMatches (toLowerCase ''milk eggs bread'') (toLowerCase ''Shopping'') = Returned 0"
proof -
  have r: "scoreMatch ''milk eggs bread'' ''Shopping List'' ''Shopping'' = Returned 15"
    by code_simp
  have sw: "startsWith (toLowerCase ''Shopping List'') (toLowerCase ''Shopping'')" by code_simp
  have lit: "(\<forall>c \<in> set ''Shopping''. \<not> isSyntaxCharacter c) \<and> ''Shopping'' \<noteq> []" by code_simp
  have c: "contentMatches (toLowerCase ''milk eggs bread'') (toLowerCase ''Shopping'') = Returned 0"
    by code_simp
  have e: "exactMatches (toLowerCase ''milk eggs bread'') (toLowerCase ''Shopping'') = Returned 0"
    by code_simp
  from scoreMatch_title_portion [of "''milk eggs bread''" "''Shopping List''" "''Shopping''" 15] r sw lit
  have "includes_str (toLowerCase ''Shopping List'') (toLowerCase ''Shopping'')" by blast
  with r sw c e show ?thesis by blast
qed

text \<open>
  C4. The claim: for a fixed title and content, any query that is a prefix of the title scores
  at least as much as any query merely contained in the title, which scores at least as much
  as any query absent from the title and present in the content.
  Between different queries the content counts differ and can outweigh the 15 points of
  the title. Amended: for a fixed content and a fixed query, a title that starts with the
  query scores 5 more than a title that contains it elsewhere only, which scores 10 more than
  a title that does not contain it.
\<close>

theorem scoreMatch_title_order:
  assumes "scoreMatch content t1 query = Returned s1"
    and "startsWith (toLowerCase t1) (toLowerCase query)"
    and "includes_str (toLowerCase t2) (toLowerCase query)"
    and "\<not> startsWith (toLowerCase t2) (toLowerCase query)"
    and "\<not> includes_str (toLowerCase t3) (toLowerCase query)"
  shows "\<exists>s2 s3. scoreMatch content t2 query = Returned s2
           \<and> scoreMatch content t3 query = Returned s3
           \<and> s1 = s2 + 5 \<and> s2 = s3 + 10 \<and> s1 \<ge> s2 \<and> s2 \<ge> s3"
proof -
  from scoreMatch_Returned [OF assms(1)] obtain cm em where
    c: "contentMatches (toLowerCase content) (toLowerCase query) = Returned cm"
    and e: "exactMatches (toLowerCase content) (toLowerCase query) = Returned em"
    and s: "s1 = (if startsWith (toLowerCase t1) (toLowerCase query) then 15
          else if includes_str (toLowerCase t1) (toLowerCase query) then 10 else 0)
         + int cm + 2 * int em"
    by blast
  from assms(2) s have s1: "s1 = 15 + int cm + 2 * int em" by simp
  from assms(3,4) have s2: "scoreMatch content t2 query = Returned (10 + int cm + 2 * int em)"
    by (simp add: scoreMatch_counts [OF c e])
  from assms(5) startsWith_includes [of "toLowerCase t3" "toLowerCase query"]
  have s3: "scoreMatch content t3 query = Returned (0 + int cm + 2 * int em)"
    by (auto simp add: scoreMatch_counts [OF c e])
  from s1 s2 s3 show ?thesis by simp
qed

theorem scoreMatch_title_order_witness:
  "scoreMatch ''today I bought milk'' ''Milk run'' ''milk'' = Returned 18
   \<and> scoreMatch ''today I bought milk'' ''Buy milk'' ''milk'' = Returned 13
   \<and> scoreMatch ''today I bought milk'' ''Diary'' ''milk'' = Returned 3"
proof -
  have 1: "scoreMatch ''today I bought milk'' ''Milk run'' ''milk'' = Returned 18" by code_simp
  have 2: "startsWith (toLowerCase ''Milk run'') (toLowerCase ''milk'')" by code_simp
  have 3: "includes_str (toLowerCase ''Buy milk'') (toLowerCase ''milk'')" by code_simp
  have 4: "\<not> startsWith (toLowerCase ''Buy milk'') (toLowerCase ''milk'')" by code_simp
  have 5: "\<not> includes_str (toLowerCase ''Diary'') (toLowerCase ''milk'')" by code_simp
  from scoreMatch_title_order [OF 1 2 3 4 5] 1 show ?thesis by auto
qed

text \<open>
  The title \<^verbatim>\<open>ab\<close>: the query \<^verbatim>\<open>a\<close> is a prefix and scores 15, the query \<^verbatim>\<open>b\<close> is
  contained and scores 16, the query \<^verbatim>\<open>c\<close> is in the content only and scores 24.
\<close>

theorem scoreMatch_query_order_counterexample:
  "startsWith (toLowerCase ''ab'') (toLowerCase ''a'')
   \<and> includes_str (toLowerCase ''ab'') (toLowerCase ''b'')
   \<and> \<not> startsWith (toLowerCase ''ab'') (toLowerCase ''b'')
   \<and> \<not> includes_str (toLowerCase ''ab'') (toLowerCase ''c'')
   \<and> includes_str (toLowerCase ''b b c c c c c c c c'') (toLowerCase ''c'')
   \<and> scoreMatch ''b b c c c c c c c c'' ''ab'' ''a'' = Returned 15
   \<and> scoreMatch ''b b c c c c c c c c'' ''ab'' ''b'' = Returned 16
   \<and> scoreMatch ''b b c c c c c c c c'' ''ab'' ''c'' = Returned 24"
  by code_simp

section \<open>Claims about the match finder\<close>

lemma find_upt_Some:
  assumes "List.find P [a ..< b] = Some k"
  shows "a \<le> k" "k < b" "P k" "\<And>j. a \<le> j \<Longrightarrow> j < k \<Longrightarrow> \<not> P j"
proof -
  from assms obtain i where i: "i < length [a ..< b]" "P ([a ..< b] ! i)" "k = [a ..< b] ! i"
    "\<forall>j<i. \<not> P ([a ..< b] ! j)"
    unfolding find_Some_iff by blast
  from i(1) have ib: "i < b - a" by simp
  with i(3) have k: "k = a + i" by simp
  from k ib show "a \<le> k" "k < b" by simp_all
  from i(2,3) show "P k" by simp
  fix j assume j: "a \<le> j" "j < k"
  then have "j - a < i" using k by simp
  with i(4) have "\<not> P ([a ..< b] ! (j - a))" by blast
  moreover have "[a ..< b] ! (j - a) = j" using j k ib by simp
  ultimately show "\<not> P j" by simp
qed

lemma filter_upt_first:
  assumes "a \<le> k" "k < b" "P k" "\<And>j. a \<le> j \<Longrightarrow> j < k \<Longrightarrow> \<not> P j"
  shows "filter P [a ..< b] = k # filter P [Suc k ..< b]"
proof -
  from assms(1,2) have "[a ..< b] = [a ..< k] @ k # [Suc k ..< b]"
    by (metis le_add_diff_inverse less_imp_le_nat upt_add_eq_append upt_conv_Cons)
  moreover have "filter P [a ..< k] = []" using assms(4) by (auto simp: filter_empty_conv)
  ultimately show ?thesis using assms(3) by simp
qed

text \<open>What \<open>indexOf\<close> answers, in terms of the occurrences from the start position on.\<close>

lemma indexOf_cases:
  assumes "p \<le> length s"
  shows "(indexOf s q (int p) = - 1 \<and> filter (occursAt q s) [p ..< Suc (length s)] = [])
       \<or> (\<exists>k. indexOf s q (int p) = int k \<and> p \<le> k \<and> occursAt q s k
             \<and> filter (occursAt q s) [p ..< Suc (length s)]
                = k # filter (occursAt q s) [Suc k ..< Suc (length s)])"
proof (cases "length s < length q")
  case True
  then have "filter (occursAt q s) [p ..< Suc (length s)] = []"
    by (auto simp: filter_empty_conv occursAt_def)
  with True show ?thesis by (simp add: indexOf_def)
next
  case False
  let ?P = "\<lambda>i. take (length q) (drop i s) = q"
  let ?b = "Suc (length s - length q)"
  have start: "nat (min (max (int p) 0) (int (length s))) = p" using assms by simp
  have occ: "occursAt q s i \<longleftrightarrow> i < ?b \<and> ?P i" for i
    using False by (auto simp: occursAt_def)
  show ?thesis
  proof (cases "List.find ?P [p ..< ?b]")
    case None
    then have "\<And>i. p \<le> i \<Longrightarrow> i < ?b \<Longrightarrow> \<not> ?P i" by (auto simp: find_None_iff)
    then have "filter (occursAt q s) [p ..< Suc (length s)] = []"
      by (auto simp: filter_empty_conv occ)
    with None False start show ?thesis by (simp add: indexOf_def)
  next
    case (Some k)
    note f = find_upt_Some [OF Some]
    have "filter (occursAt q s) [p ..< Suc (length s)]
        = k # filter (occursAt q s) [Suc k ..< Suc (length s)]"
      using f by (intro filter_upt_first) (auto simp: occ)
    moreover have "occursAt q s k" using f by (simp add: occ)
    ultimately show ?thesis using Some False start f(1) by (simp add: indexOf_def)
  qed
qed

lemma findMatches_loop_from:
  assumes "queryLower \<noteq> []" and "occursAt queryLower textLower k"
  shows "findMatches_loop text' query mtype queryLower textLower (int k) matches
       = Some (matches @ map (\<lambda>i. windowAt text' query mtype (int i))
                  (filter (occursAt queryLower textLower) [k ..< Suc (length textLower)]))"
  using assms(2)
proof (induction "length textLower - k" arbitrary: k matches rule: less_induct)
  case less
  let ?n = "length textLower"
  let ?m = "matches @ [windowAt text' query mtype (int k)]"
  from less.prems assms(1) have k: "k < ?n" by (cases queryLower) (auto simp: occursAt_def)
  have here: "filter (occursAt queryLower textLower) [k ..< Suc ?n]
      = k # filter (occursAt queryLower textLower) [Suc k ..< Suc ?n]"
    using k less.prems by (simp add: upt_conv_Cons del: upt_Suc)
  have step: "findMatches_loop text' query mtype queryLower textLower (int k) matches
      = findMatches_loop text' query mtype queryLower textLower
          (indexOf textLower queryLower (int (Suc k))) ?m"
    by (subst findMatches_loop.simps) (simp add: windowAt_def add.commute)
  from k have "Suc k \<le> ?n" by simp
  from indexOf_cases [OF this, of queryLower] show ?case
  proof (elim disjE conjE exE)
    assume "indexOf textLower queryLower (int (Suc k)) = - 1"
      and "filter (occursAt queryLower textLower) [Suc k ..< Suc ?n] = []"
    then show ?thesis
      by (simp add: step here findMatches_loop.simps [of _ _ _ _ _ "- 1"] del: upt_Suc)
  next
    fix k'
    assume i: "indexOf textLower queryLower (int (Suc k)) = int k'"
      and k': "Suc k \<le> k'" "occursAt queryLower textLower k'"
      and f: "filter (occursAt queryLower textLower) [Suc k ..< Suc ?n]
        = k' # filter (occursAt queryLower textLower) [Suc k' ..< Suc ?n]"
    from k' assms(1) have "k' < ?n" by (cases queryLower) (auto simp: occursAt_def)
    then have here': "filter (occursAt queryLower textLower) [k' ..< Suc ?n]
      = k' # filter (occursAt queryLower textLower) [Suc k' ..< Suc ?n]"
      using k'(2) by (simp add: upt_conv_Cons del: upt_Suc)
    have "findMatches_loop text' query mtype queryLower textLower (int k') ?m
      = Some (?m @ map (\<lambda>i. windowAt text' query mtype (int i))
                  (filter (occursAt queryLower textLower) [k' ..< Suc ?n]))"
      using k' k by (intro less) auto
    with i show ?thesis by (simp add: step here f here' del: upt_Suc)
  qed
qed

lemma findMatches_occurrences:
  assumes "query \<noteq> []"
  shows "findMatches text' query mtype
       = Some (map (\<lambda>i. windowAt text' query mtype (int i))
                 (occurrences (toLowerCase query) (toLowerCase text')))"
proof -
  let ?q = "toLowerCase query" and ?t = "toLowerCase text'"
  from assms have ne: "?q \<noteq> []" by (simp add: toLowerCase_eq_Nil)
  have "0 \<le> length ?t" by simp
  from indexOf_cases [OF this, of ?q] show ?thesis
  proof (elim disjE conjE exE)
    assume "indexOf ?t ?q (int 0) = - 1" and "filter (occursAt ?q ?t) [0 ..< Suc (length ?t)] = []"
    then show ?thesis
      by (simp add: findMatches_def occurrences_def findMatches_loop.simps [of _ _ _ _ _ "- 1"]
          del: upt_Suc)
  next
    fix k
    assume i: "indexOf ?t ?q (int 0) = int k" and k: "occursAt ?q ?t k"
      and f: "filter (occursAt ?q ?t) [0 ..< Suc (length ?t)]
            = k # filter (occursAt ?q ?t) [Suc k ..< Suc (length ?t)]"
    from k ne have "k < length ?t" by (cases ?q) (auto simp: occursAt_def)
    then have here: "filter (occursAt ?q ?t) [k ..< Suc (length ?t)]
      = k # filter (occursAt ?q ?t) [Suc k ..< Suc (length ?t)]"
      using k by (simp add: upt_conv_Cons del: upt_Suc)
    from findMatches_loop_from [OF ne k, of text' query mtype "[]"] i
    show ?thesis by (simp add: findMatches_def occurrences_def f here del: upt_Suc)
  qed
qed

lemma substring_window:
  assumes "i \<le> length s"
  shows "substring s (max 0 (int i - 50)) (int i + int n + 50)
       = take (min (length s) (i + n + 50) - (i - 50)) (drop (i - 50) s)"
proof -
  have a: "min (max (max 0 (int i - 50)) 0) (int (length s)) = int (i - 50)"
    using assms by auto
  have b: "min (max (int i + int n + 50) 0) (int (length s)) = int (min (length s) (i + n + 50))"
    by auto
  have c: "i - 50 \<le> min (length s) (i + n + 50)" using assms by auto
  show ?thesis
    unfolding substring_def Let_def a b using c
    by (simp add: min_absorb1 max_absorb2 nat_diff_distrib' del: of_nat_min)
qed

text \<open>
  C5. For a non-empty query, \<^verbatim>\<open>findMatches\<close> returns, and its result has exactly one match
  for each start position \<open>i\<close> at which the lowercased query stands in the lowercased text,
  in increasing order of \<open>i\<close>, overlapping occurrences included. The match carries the window
  of the text from \<open>max 0 (i - 50)\<close> (written \<open>i - 50\<close> on natural numbers) up to
  \<open>i + length query + 50\<close>, cut at the end of the text, the offset \<open>i\<close> and the length of the
  query.
\<close>

theorem findMatches_all_occurrences:
  assumes "query \<noteq> []"
  shows "findMatches text' query mtype
       = Some (map (\<lambda>i. \<lparr>match_type = mtype,
                          match_text = take (min (length text') (i + length query + 50) - (i - 50))
                                         (drop (i - 50) text'),
                          match_index = int i,
                          match_length = length query\<rparr>)
                 (occurrences (toLowerCase query) (toLowerCase text')))
     \<and> sorted (occurrences (toLowerCase query) (toLowerCase text'))
     \<and> distinct (occurrences (toLowerCase query) (toLowerCase text'))
     \<and> set (occurrences (toLowerCase query) (toLowerCase text'))
         = {i. occursAt (toLowerCase query) (toLowerCase text') i}"
proof -
  have order: "sorted (occurrences (toLowerCase query) (toLowerCase text'))
     \<and> distinct (occurrences (toLowerCase query) (toLowerCase text'))
     \<and> set (occurrences (toLowerCase query) (toLowerCase text'))
         = {i. occursAt (toLowerCase query) (toLowerCase text') i}"
    by (auto simp: occurrences_def sorted_wrt_filter occursAt_def simp del: upt_Suc)
  let ?occ = "occurrences (toLowerCase query) (toLowerCase text')"
  have "windowAt text' query mtype (int i)
      = \<lparr>match_type = mtype,
         match_text = take (min (length text') (i + length query + 50) - (i - 50))
                        (drop (i - 50) text'),
         match_index = int i,
         match_length = length query\<rparr>"
    if "i \<in> set ?occ" for i
  proof -
    from that have "i \<le> length text'"
      by (simp add: occurrences_def occursAt_def length_toLowerCase del: upt_Suc)
    then show ?thesis by (simp add: windowAt_def substring_window)
  qed
  then have "findMatches text' query mtype
       = Some (map (\<lambda>i. \<lparr>match_type = mtype,
                          match_text = take (min (length text') (i + length query + 50) - (i - 50))
                                         (drop (i - 50) text'),
                          match_index = int i,
                          match_length = length query\<rparr>)
                 (occurrences (toLowerCase query) (toLowerCase text')))"
    by (simp add: findMatches_occurrences [OF assms] cong: map_cong)
  with order show ?thesis by simp
qed

text \<open>
  The query \<^verbatim>\<open>aa\<close> in \<^verbatim>\<open>aaa\<close> is found at 0 and at 1, with the whole text as window; a
  match at offset 55 of a longer text has a window that starts at offset 5 and ends 50
  characters after the match.
\<close>

theorem findMatches_all_occurrences_witness:
  "findMatches ''aaa'' ''aa'' Content
     = Some [\<lparr>match_type = Content, match_text = ''aaa'', match_index = 0, match_length = 2\<rparr>,
             \<lparr>match_type = Content, match_text = ''aaa'', match_index = 1, match_length = 2\<rparr>]
   \<and> findMatches ''xxxxxxxxxxxxxxxxxxxxxxxxxxxxxxxxxxxxxxxxxxxxxxxxxxxxxxxNeedleyyyyyyyyyyyyyyyyyyyyyyyyyyyyyyyyyyyyyyyyyyyyyyyyyyyyyyyyyyyy'' ''nEEdle'' Title
     = Some [\<lparr>match_type = Title, match_text = ''xxxxxxxxxxxxxxxxxxxxxxxxxxxxxxxxxxxxxxxxxxxxxxxxxxNeedleyyyyyyyyyyyyyyyyyyyyyyyyyyyyyyyyyyyyyyyyyyyyyyyyyy'', match_index = 55, match_length = 6\<rparr>]"
proof -
  have ne: "''aa'' \<noteq> []" "''nEEdle'' \<noteq> []" by simp_all
  have "occurrences (toLowerCase ''aa'') (toLowerCase ''aaa'') = [0, 1]" by code_simp
  with findMatches_all_occurrences [OF ne(1), of "''aaa''" Content]
  have 1: "findMatches ''aaa'' ''aa'' Content
     = Some [\<lparr>match_type = Content, match_text = ''aaa'', match_index = 0, match_length = 2\<rparr>,
             \<lparr>match_type = Content, match_text = ''aaa'', match_index = 1, match_length = 2\<rparr>]"
    by simp
  have "occurrences (toLowerCase ''nEEdle'') (toLowerCase ''xxxxxxxxxxxxxxxxxxxxxxxxxxxxxxxxxxxxxxxxxxxxxxxxxxxxxxxNeedleyyyyyyyyyyyyyyyyyyyyyyyyyyyyyyyyyyyyyyyyyyyyyyyyyyyyyyyyyyyy'') = [55]" by code_simp
  with findMatches_all_occurrences [OF ne(2), of "''xxxxxxxxxxxxxxxxxxxxxxxxxxxxxxxxxxxxxxxxxxxxxxxxxxxxxxxNeedleyyyyyyyyyyyyyyyyyyyyyyyyyyyyyyyyyyyyyyyyyyyyyyyyyyyyyyyyyyyy''" Title]
  have 2: "findMatches ''xxxxxxxxxxxxxxxxxxxxxxxxxxxxxxxxxxxxxxxxxxxxxxxxxxxxxxxNeedleyyyyyyyyyyyyyyyyyyyyyyyyyyyyyyyyyyyyyyyyyyyyyyyyyyyyyyyyyyyy'' ''nEEdle'' Title
     = Some [\<lparr>match_type = Title, match_text = ''xxxxxxxxxxxxxxxxxxxxxxxxxxxxxxxxxxxxxxxxxxxxxxxxxxNeedleyyyyyyyyyyyyyyyyyyyyyyyyyyyyyyyyyyyyyyyyyyyyyyyyyy'', match_index = 55, match_length = 6\<rparr>]"
    by simp
  from 1 2 show ?thesis by simp
qed

section \<open>Claims about the search orchestrator\<close>

text \<open>Nothing in the processing runs forever when the query is not empty.\<close>

lemma consTerm_not_Diverged: "r \<noteq> Diverged \<Longrightarrow> consTerm t r \<noteq> Diverged"
  by (cases r) auto

lemma parsePattern_not_Diverged: "parsePattern atom p \<noteq> Diverged"
  by (induction atom p rule: parsePattern.induct)
    (auto simp: consTerm_not_Diverged split: list.splits)

lemma countMatches_not_Diverged: "r \<noteq> Diverged \<Longrightarrow> countMatches r s \<noteq> Diverged"
  by (cases r) auto

lemma scoreMatch_not_Diverged: "scoreMatch content title query \<noteq> Diverged"
proof -
  have "contentMatches c q \<noteq> Diverged" for c q
    unfolding contentMatches_def newRegExp_def
    by (rule countMatches_not_Diverged [OF parsePattern_not_Diverged])
  moreover have "exactMatches c q \<noteq> Diverged" for c q
    unfolding exactMatches_def exactWordRegex_def newRegExp_def
    by (rule countMatches_not_Diverged [OF parsePattern_not_Diverged])
  ultimately show ?thesis
    by (auto simp: scoreMatch_def Let_def split: outcome.splits)
qed

lemma trim_Nil: "trim [] = []"
  by (simp add: trim_def)

lemma noteResult_not_Diverged:
  assumes "query \<noteq> []"
  shows "noteResult now query n \<noteq> Diverged"
proof -
  have "bindOutcome (scoreMatch c t query) (\<lambda>score. Returned (f score)) \<noteq> Diverged" for c t
    and f :: "int \<Rightarrow> search_result"
    using scoreMatch_not_Diverged [of c t query] by (cases "scoreMatch c t query") auto
  then show ?thesis
    by (simp add: noteResult_def Let_def returnedOrDiverged_def
        findMatches_occurrences [OF assms])
qed

lemma mapOutcome_not_Diverged:
  assumes "\<And>x. f x \<noteq> Diverged"
  shows "mapOutcome f xs \<noteq> Diverged"
proof (induction xs)
  case Nil
  then show ?case by simp
next
  case (Cons x xs)
  with assms [of x] show ?case
    by (cases "f x"; cases "mapOutcome f xs") auto
qed

lemma processNotes_not_Diverged:
  assumes "query \<noteq> []"
  shows "processNotes now localeCompare query filters notes \<noteq> Diverged"
proof -
  let ?m = "mapOutcome (noteResult now query) (filter (noteFilter query filters) notes)"
  have "?m \<noteq> Diverged" by (intro mapOutcome_not_Diverged noteResult_not_Diverged assms)
  then show ?thesis by (cases ?m) (auto simp: processNotes_def)
qed

text \<open>
  C6. When the trimmed query is not empty, \<^verbatim>\<open>searchNotes\<close> reads the store. If the read
  is rejected, or the processing of the notes read throws, the call still resolves: the state
  it leaves has an empty result list, the query as given and \<open>isSearching\<close> reset. The call never
  rejects, \<open>isSearching\<close> is reset on every path on which a search was started, and the call
  settles whenever the read does. (For a query of white space only the store is not read, so
  no error can occur; this path leaves \<open>isSearching\<close> as it was.)
\<close>

theorem searchNotes_degrades_to_empty:
  "(trim query \<noteq> []
      \<and> (getAllNotes = Thrown e
          \<or> (\<exists>notes. getAllNotes = Returned notes
                \<and> processNotes now localeCompare query filters notes = Thrown e))
      \<longrightarrow> searchNotes getAllNotes now localeCompare query filters st
            = Returned (st\<lparr>isSearching := False, searchResults := [], searchQuery := query\<rparr>))
   \<and> searchNotes getAllNotes now localeCompare query filters st \<noteq> Thrown e'
   \<and> (trim query \<noteq> [] \<and> searchNotes getAllNotes now localeCompare query filters st = Returned st'
        \<longrightarrow> \<not> isSearching st')
   \<and> (getAllNotes \<noteq> Diverged
        \<longrightarrow> searchNotes getAllNotes now localeCompare query filters st \<noteq> Diverged)"
proof (intro conjI impI)
  assume a: "trim query \<noteq> []
      \<and> (getAllNotes = Thrown e
          \<or> (\<exists>notes. getAllNotes = Returned notes
                \<and> processNotes now localeCompare query filters notes = Thrown e))"
  then have "tryBlock getAllNotes now localeCompare query filters = Thrown e"
    by (auto simp: tryBlock_def)
  with a show "searchNotes getAllNotes now localeCompare query filters st
            = Returned (st\<lparr>isSearching := False, searchResults := [], searchQuery := query\<rparr>)"
    by (simp add: searchNotes_def Let_def)
next
  show "searchNotes getAllNotes now localeCompare query filters st \<noteq> Thrown e'"
    by (simp add: searchNotes_def Let_def split: outcome.splits)
next
  assume "trim query \<noteq> [] \<and> searchNotes getAllNotes now localeCompare query filters st = Returned st'"
  then show "\<not> isSearching st'"
    by (auto simp: searchNotes_def Let_def split: outcome.splits)
next
  assume g: "getAllNotes \<noteq> Diverged"
  show "searchNotes getAllNotes now localeCompare query filters st \<noteq> Diverged"
  proof (cases "trim query = []")
    case True
    then show ?thesis by (simp add: searchNotes_def)
  next
    case False
    then have "query \<noteq> []" using trim_Nil by auto
    then have "tryBlock getAllNotes now localeCompare query filters \<noteq> Diverged"
      using g processNotes_not_Diverged [of query now localeCompare filters]
      by (cases getAllNotes) (auto simp: tryBlock_def)
    then show ?thesis by (simp add: searchNotes_def Let_def split: outcome.splits)
  qed
qed

text \<open>
  A rejected read; and a query \<^verbatim>\<open>*\<close>, for which the scorer throws on the one note that
  contains it.
\<close>

theorem searchNotes_degrades_to_empty_witness:
  "searchNotes (Thrown StoreError) 0 (\<lambda>a b. 0) ''milk''
       \<lparr>dateRange = None, contentType = None, sortBy = None\<rparr>
       \<lparr>isSearching = False, searchResults = [], searchQuery = ''eggs''\<rparr>
     = Returned \<lparr>isSearching = False, searchResults = [], searchQuery = ''milk''\<rparr>
   \<and> processNotes 0 (\<lambda>a b. 0) ''*'' \<lparr>dateRange = None, contentType = None, sortBy = None\<rparr>
       [\<lparr>note_path = ''/sums'', note_name = Some ''Sums'', note_content = Some ''2*3'',
         note_createdAt = Some 1, note_updatedAt = Some 2\<rparr>]
     = Thrown SyntaxError
   \<and> searchNotes
       (Returned [\<lparr>note_path = ''/sums'', note_name = Some ''Sums'', note_content = Some ''2*3'',
                   note_createdAt = Some 1, note_updatedAt = Some 2\<rparr>])
       0 (\<lambda>a b. 0) ''*''
       \<lparr>dateRange = None, contentType = None, sortBy = None\<rparr>
       \<lparr>isSearching = False, searchResults = [], searchQuery = ''eggs''\<rparr>
     = Returned \<lparr>isSearching = False, searchResults = [], searchQuery = ''*''\<rparr>"
proof -
  let ?f = "\<lparr>dateRange = None, contentType = None, sortBy = None\<rparr>"
  let ?st = "\<lparr>isSearching = False, searchResults = [], searchQuery = ''eggs''\<rparr>"
  let ?n = "\<lparr>note_path = ''/sums'', note_name = Some ''Sums'', note_content = Some ''2*3'',
             note_createdAt = Some 1, note_updatedAt = Some 2\<rparr>"
  have t1: "trim ''milk'' \<noteq> []" and t2: "trim ''*'' \<noteq> []" by code_simp+
  have p: "processNotes 0 (\<lambda>a b. 0) ''*'' ?f [?n] = Thrown SyntaxError" by code_simp
  from t1 searchNotes_degrades_to_empty
    [where query = "''milk''" and getAllNotes = "Thrown StoreError" and e = StoreError
      and now = 0 and localeCompare = "\<lambda>a b. 0" and filters = ?f and st = ?st]
  have 1: "searchNotes (Thrown StoreError) 0 (\<lambda>a b. 0) ''milk'' ?f ?st
     = Returned \<lparr>isSearching = False, searchResults = [], searchQuery = ''milk''\<rparr>"
    by simp
  from t2 p searchNotes_degrades_to_empty
    [where query = "''*''" and getAllNotes = "Returned [?n]" and e = SyntaxError
      and now = 0 and localeCompare = "\<lambda>a b. 0" and filters = ?f and st = ?st]
  have 2: "searchNotes (Returned [?n]) 0 (\<lambda>a b. 0) ''*'' ?f ?st
     = Returned \<lparr>isSearching = False, searchResults = [], searchQuery = ''*''\<rparr>"
    by simp
  from 1 p 2 show ?thesis by simp
qed

section \<open>Claims about the auto-save coordinator\<close>

lemma dropWhile_rev_dropWhile_hd:
  assumes "z = dropWhile P (rev (dropWhile P x))" and "z \<noteq> []"
  shows "\<not> P (last z)"
proof -
  let ?y = "dropWhile P x"
  have y: "?y \<noteq> []"
  proof
    assume "?y = []"
    with assms(1) have "z = []" by simp
    with assms(2) show False by simp
  qed
  then have hd: "\<not> P (hd ?y)" by (simp add: hd_dropWhile)
  obtain ws where ws: "rev ?y = ws @ z" using assms(1) by (metis takeWhile_dropWhile_id)
  with assms(2) have "last z = last (rev ?y)" by simp
  also have "\<dots> = hd ?y" using y by (simp add: last_rev)
  finally show ?thesis using hd by simp
qed

lemma trim_idem: "trim (trim x) = trim x"
proof -
  let ?P = isWhiteSpace
  define z where "z = dropWhile ?P (rev (dropWhile ?P x))"
  have t: "trim x = rev z" by (simp add: trim_def z_def)
  have 1: "dropWhile ?P (rev z) = rev z"
  proof (cases "z = []")
    case True
    then show ?thesis by simp
  next
    case False
    from dropWhile_rev_dropWhile_hd [OF z_def False] have "\<not> ?P (hd (rev z))"
      using False by (simp add: hd_rev)
    with False show ?thesis by (cases "rev z") auto
  qed
  have 2: "dropWhile ?P z = z" by (simp add: z_def)
  show ?thesis unfolding t by (simp add: trim_def 1 2)
qed

lemma inv_initial: "coordinator_inv initial"
  by (simp add: coordinator_inv_def initial_def trim_def)

lemma inv_debouncedSave: "coordinator_inv s \<Longrightarrow> coordinator_inv (debouncedSave c en s)"
  by (auto simp: coordinator_inv_def debouncedSave_def Let_def trim_idem)

lemma clearTimeoutRef_timers: "coordinator_inv s \<Longrightarrow> pendingTimers (clearTimeoutRef s) = []"
  by (cases "pendingTimers s") (auto simp: coordinator_inv_def clearTimeoutRef_def split: option.splits)

lemma clearTimeoutRef_other:
  "timeoutRef (clearTimeoutRef s) = timeoutRef s"
  "lastSavedContentRef (clearTimeoutRef s) = lastSavedContentRef s"
  "isSavingRef (clearTimeoutRef s) = isSavingRef s"
  "prop_content (clearTimeoutRef s) = prop_content s"
  "prop_enabled (clearTimeoutRef s) = prop_enabled s"
  "prop_delay (clearTimeoutRef s) = prop_delay s"
  "hasCleanup (clearTimeoutRef s) = hasCleanup s"
  "nextTimerId (clearTimeoutRef s) = nextTimerId s"
  "clock (clearTimeoutRef s) = clock s"
  "inFlight (clearTimeoutRef s) = inFlight s"
  "persistCalls (clearTimeoutRef s) = persistCalls s"
  by (simp_all add: clearTimeoutRef_def split: option.splits)

lemma inv_clearTimeoutRef: "coordinator_inv s \<Longrightarrow> coordinator_inv (clearTimeoutRef s)"
  using clearTimeoutRef_timers [of s] by (simp add: coordinator_inv_def clearTimeoutRef_other)

lemma inv_settle: "coordinator_inv s \<Longrightarrow> coordinator_inv (settle k ok s)"
  by (auto simp: coordinator_inv_def settle_def Let_def length_Suc_conv split: if_splits)

lemma inv_effect:
  assumes "coordinator_inv s" and "pendingTimers s = []"
  shows "coordinator_inv (effect s)"
  using assms clearTimeoutRef_timers [OF assms(1)]
  by (auto simp: coordinator_inv_def effect_def Let_def clearTimeoutRef_other)

lemma inv_render: "coordinator_inv s \<Longrightarrow> coordinator_inv (render c d en s)"
proof -
  assume i: "coordinator_inv s"
  let ?s1 = "if hasCleanup s then clearTimeoutRef s else s"
  have t: "pendingTimers ?s1 = []" using i clearTimeoutRef_timers [OF i] by (auto simp: coordinator_inv_def)
  have "coordinator_inv ?s1" using i inv_clearTimeoutRef by simp
  with t have "coordinator_inv (?s1\<lparr>prop_content := c, prop_delay := d, prop_enabled := en\<rparr>)"
    by (simp add: coordinator_inv_def)
  moreover have "pendingTimers (?s1\<lparr>prop_content := c, prop_delay := d, prop_enabled := en\<rparr>) = []"
    using t by simp
  ultimately show ?thesis unfolding render_def Let_def by (rule inv_effect)
qed

lemma inv_saveNow: "coordinator_inv s \<Longrightarrow> coordinator_inv (saveNow s)"
  by (simp add: saveNow_def inv_debouncedSave inv_clearTimeoutRef)


lemma advanceTo_idle:
  assumes "\<forall>tm \<in> set (pendingTimers s). t < timer_due tm"
  shows "advanceTo t s = s\<lparr>clock := max (clock s) t\<rparr>"
proof -
  have "filter (\<lambda>tm. timer_due tm \<le> t) (pendingTimers s) = []"
    using assms by (auto simp: filter_empty_conv)
  moreover have "filter (\<lambda>tm. \<not> timer_due tm \<le> t) (pendingTimers s) = pendingTimers s"
    using assms by (auto simp: filter_id_conv)
  ultimately show ?thesis by (simp add: advanceTo_def)
qed

lemma advanceTo_fire:
  assumes "pendingTimers s = [tm]" and "timer_due tm \<le> t"
  shows "advanceTo t s
       = (fireTimer tm (s\<lparr>pendingTimers := []\<rparr>))
           \<lparr>clock := max (clock (fireTimer tm (s\<lparr>pendingTimers := []\<rparr>))) t\<rparr>"
  using assms by (simp add: advanceTo_def Let_def)

lemma inv_advanceTo: "coordinator_inv s \<Longrightarrow> coordinator_inv (advanceTo t s)"
proof -
  assume i: "coordinator_inv s"
  show ?thesis
  proof (cases "\<forall>tm \<in> set (pendingTimers s). t < timer_due tm")
    case True
    from advanceTo_idle [OF True] i True show ?thesis by (auto simp: coordinator_inv_def)
  next
    case False
    with i obtain tm where tm: "pendingTimers s = [tm]" "timer_due tm \<le> t"
      by (cases "pendingTimers s") (auto simp: coordinator_inv_def)
    let ?s1 = "(s\<lparr>pendingTimers := []\<rparr>)\<lparr>clock := max (clock s) (timer_due tm)\<rparr>"
    have "coordinator_inv ?s1" using i by (simp add: coordinator_inv_def)
    then have "coordinator_inv (fireTimer tm (s\<lparr>pendingTimers := []\<rparr>))"
      unfolding fireTimer_def by (simp add: inv_debouncedSave)
    moreover have "pendingTimers (fireTimer tm (s\<lparr>pendingTimers := []\<rparr>)) = []"
      by (simp add: fireTimer_def debouncedSave_def Let_def)
    ultimately have "coordinator_inv ((fireTimer tm (s\<lparr>pendingTimers := []\<rparr>))
           \<lparr>clock := max (clock (fireTimer tm (s\<lparr>pendingTimers := []\<rparr>))) t\<rparr>)"
      by (simp add: coordinator_inv_def)
    then show ?thesis by (simp add: advanceTo_fire [OF tm])
  qed
qed

lemma inv_step: "coordinator_inv s \<Longrightarrow> coordinator_inv (step e s)"
  by (cases e) (simp_all add: inv_render inv_advanceTo inv_saveNow inv_settle)

lemma inv_run: "coordinator_inv s \<Longrightarrow> coordinator_inv (run es s)"
  unfolding run_def by (induction es arbitrary: s) (simp_all add: inv_step)

lemma inv_reachable: "coordinator_inv (run es initial)"
  by (rule inv_run [OF inv_initial])

lemma debouncedSave_saving:
  "isSavingRef s \<Longrightarrow> debouncedSave c en s = s"
  by (simp add: debouncedSave_def)

lemma saveNow_in_flight:
  assumes "coordinator_inv s" and "inFlight s \<noteq> []"
  shows "persistCalls (saveNow s) = persistCalls s"
proof -
  from assms have "isSavingRef s" by (auto simp: coordinator_inv_def split: if_splits)
  then show ?thesis
    by (simp add: saveNow_def debouncedSave_saving clearTimeoutRef_other)
qed

lemma advanceTo_in_flight:
  assumes "coordinator_inv s" and "inFlight s \<noteq> []"
  shows "persistCalls (advanceTo t s) = persistCalls s"
proof -
  from assms have sv: "isSavingRef s" by (auto simp: coordinator_inv_def split: if_splits)
  show ?thesis
  proof (cases "\<forall>tm \<in> set (pendingTimers s). t < timer_due tm")
    case True
    from advanceTo_idle [OF True] show ?thesis by simp
  next
    case False
    with assms(1) obtain tm where tm: "pendingTimers s = [tm]" "timer_due tm \<le> t"
      by (cases "pendingTimers s") (auto simp: coordinator_inv_def)
    from sv show ?thesis
      by (simp add: advanceTo_fire [OF tm] fireTimer_def debouncedSave_saving)
  qed
qed

text \<open>
  C7. In every state that the coordinator reaches from its first render, at most one call of
  \<^verbatim>\<open>onSave\<close> is pending. While one is pending, a manual \<^verbatim>\<open>saveNow\<close> and the passing of time
  (with the timeouts that fire in it) make no call of \<^verbatim>\<open>onSave\<close>; and when the pending call
  settles, no call is made for a request that was dropped: nothing was queued.
\<close>

theorem at_most_one_persist_in_flight:
  "length (inFlight (run es initial)) \<le> 1
   \<and> (inFlight (run es initial) \<noteq> []
        \<longrightarrow> persistCalls (step SaveNow (run es initial)) = persistCalls (run es initial)
          \<and> persistCalls (step (Tick t) (run es initial)) = persistCalls (run es initial))
   \<and> persistCalls (step (Settle k ok) (run es initial)) = persistCalls (run es initial)"
proof -
  let ?s = "run es initial"
  have i: "coordinator_inv ?s" by (rule inv_reachable)
  then have "length (inFlight ?s) \<le> 1" by (auto simp: coordinator_inv_def split: if_splits)
  moreover have "persistCalls (step (Settle k ok) ?s) = persistCalls ?s"
    by (simp add: settle_def Let_def)
  ultimately show ?thesis
    using saveNow_in_flight [OF i] advanceTo_in_flight [OF i] by simp
qed

text \<open>
  The save of \<^verbatim>\<open>a\<close> is pending from 2000 on; the content changes to \<^verbatim>\<open>ab\<close>. Neither
  \<^verbatim>\<open>saveNow\<close> nor the timeout that fires at 4000 calls \<^verbatim>\<open>onSave\<close>.
\<close>

theorem at_most_one_persist_in_flight_witness:
  "inFlight (run [Render ''a'' 2000 True, Tick 2000, Render ''ab'' 2000 True] initial) = [''a'']
   \<and> persistCalls (run [Render ''a'' 2000 True, Tick 2000, Render ''ab'' 2000 True] initial)
        = [(2000, ''a'')]
   \<and> persistCalls (step SaveNow (run [Render ''a'' 2000 True, Tick 2000, Render ''ab'' 2000 True] initial))
        = [(2000, ''a'')]
   \<and> persistCalls (step (Tick 4000) (run [Render ''a'' 2000 True, Tick 2000, Render ''ab'' 2000 True] initial))
        = [(2000, ''a'')]"
proof -
  let ?s = "run [Render ''a'' 2000 True, Tick 2000, Render ''ab'' 2000 True] initial"
  have f: "inFlight ?s = [''a'']" by code_simp
  have c: "persistCalls ?s = [(2000, ''a'')]" by code_simp
  from f have "inFlight ?s \<noteq> []" by simp
  with at_most_one_persist_in_flight [of "[Render ''a'' 2000 True, Tick 2000, Render ''ab'' 2000 True]" 4000 0 True]
  have "persistCalls (step SaveNow ?s) = persistCalls ?s"
    and "persistCalls (step (Tick 4000) ?s) = persistCalls ?s"
    by blast+
  with f c show ?thesis by simp
qed

text \<open>The marker changes in no event but the success of a call of \<^verbatim>\<open>onSave\<close>.\<close>

lemma debouncedSave_marker: "lastSavedContentRef (debouncedSave c en s) = lastSavedContentRef s"
  by (simp add: debouncedSave_def Let_def)

lemma fold_fireTimer_marker: "lastSavedContentRef (fold fireTimer tms s) = lastSavedContentRef s"
  by (induction tms arbitrary: s) (simp_all add: fireTimer_def debouncedSave_marker)

lemma effect_marker: "lastSavedContentRef (effect s) = lastSavedContentRef s"
  by (simp add: effect_def Let_def clearTimeoutRef_other)

lemma step_marker:
  assumes "\<not> isSuccess e"
  shows "lastSavedContentRef (step e s) = lastSavedContentRef s"
proof (cases e)
  case (Render c d en)
  then show ?thesis by (simp add: render_def Let_def effect_marker clearTimeoutRef_other)
next
  case (Tick t)
  then show ?thesis by (simp add: advanceTo_def Let_def fold_fireTimer_marker)
next
  case SaveNow
  then show ?thesis by (simp add: saveNow_def debouncedSave_marker clearTimeoutRef_other)
next
  case (Settle k ok)
  with assms show ?thesis by (simp add: settle_def Let_def)
qed

lemma run_marker:
  assumes "\<forall>e \<in> set es. \<not> isSuccess e"
  shows "lastSavedContentRef (run es s) = lastSavedContentRef s"
  using assms unfolding run_def by (induction es arbitrary: s) (simp_all add: step_marker)

lemma debouncedSave_unchanged:
  "trim c = lastSavedContentRef s \<Longrightarrow> debouncedSave c en s = s"
  by (simp add: debouncedSave_def Let_def)

lemma fold_fireTimer_unchanged:
  assumes "\<forall>tm \<in> set tms. trim (closure_content tm) = lastSavedContentRef s"
  shows "persistCalls (fold fireTimer tms s) = persistCalls s"
  using assms
proof (induction tms arbitrary: s)
  case Nil
  then show ?case by simp
next
  case (Cons tm tms)
  let ?s = "s\<lparr>clock := max (clock s) (timer_due tm)\<rparr>"
  from Cons.prems have "fireTimer tm s = ?s"
    by (simp add: fireTimer_def debouncedSave_unchanged)
  moreover have "persistCalls (fold fireTimer tms ?s) = persistCalls ?s"
    using Cons.prems by (intro Cons.IH) simp
  ultimately show ?case by simp
qed

lemma saveNow_unchanged:
  assumes "trim (prop_content s) = lastSavedContentRef s"
  shows "persistCalls (saveNow s) = persistCalls s"
  using assms by (simp add: saveNow_def debouncedSave_unchanged clearTimeoutRef_other)

lemma advanceTo_unchanged:
  assumes "\<forall>tm \<in> set (pendingTimers s). trim (closure_content tm) = lastSavedContentRef s"
  shows "persistCalls (advanceTo t s) = persistCalls s"
proof -
  let ?due = "sort_key timer_due (filter (\<lambda>tm. timer_due tm \<le> t) (pendingTimers s))"
  let ?s = "s\<lparr>pendingTimers := filter (\<lambda>tm. \<not> timer_due tm \<le> t) (pendingTimers s)\<rparr>"
  have "\<forall>tm \<in> set ?due. trim (closure_content tm) = lastSavedContentRef ?s"
    using assms by simp
  from fold_fireTimer_unchanged [OF this] show ?thesis by (simp add: advanceTo_def Let_def)
qed

text \<open>
  C8. The claim: after a persist of \<open>X\<close> has succeeded, every later save attempt whose trimmed
  content is the trimmed \<open>X\<close> makes no persist call; the marker is set on success only.
  The coordinator keeps one marker, the content of the last successful persist: once another
  content has been saved, \<open>X\<close> is saved again. Amended: after a persist of \<open>X\<close> has succeeded
  and until another persist succeeds, the marker is the trimmed \<open>X\<close> (here \<open>inFlight s ! k\<close>,
  the argument of the call that succeeds), and every save attempt, manual or by a timeout,
  whose trimmed content is the trimmed \<open>X\<close> makes no persist call; a failed persist and every
  other event but a success leave the marker as it is.
\<close>

theorem autosave_skip_unchanged:
  assumes "k < length (inFlight s)"
    and "\<forall>e \<in> set es. \<not> isSuccess e"
    and "s' = run es (step (Settle k True) s)"
  shows "lastSavedContentRef s' = inFlight s ! k
    \<and> (trim (prop_content s') = inFlight s ! k
         \<longrightarrow> persistCalls (step SaveNow s') = persistCalls s')
    \<and> ((\<forall>tm \<in> set (pendingTimers s'). trim (closure_content tm) = inFlight s ! k)
         \<longrightarrow> persistCalls (step (Tick t) s') = persistCalls s')
    \<and> lastSavedContentRef (step (Settle j False) s') = lastSavedContentRef s'
    \<and> (\<not> isSuccess e \<longrightarrow> lastSavedContentRef (step e s') = lastSavedContentRef s')"
proof -
  from assms(1) have "lastSavedContentRef (step (Settle k True) s) = inFlight s ! k"
    by (simp add: settle_def Let_def)
  with run_marker [OF assms(2)] assms(3) have m: "lastSavedContentRef s' = inFlight s ! k"
    by simp
  have "lastSavedContentRef (step (Settle j False) s') = lastSavedContentRef s'"
    by (rule step_marker) simp
  with m show ?thesis
    using saveNow_unchanged [of s'] advanceTo_unchanged [of s' t] step_marker [of e s']
    by simp
qed

text \<open>
  \<^verbatim>\<open>X\<close> is saved; the content goes to \<^verbatim>\<open>Y\<close> and back to \<^verbatim>\<open>X\<close> between spaces before any
  timeout fires: neither \<^verbatim>\<open>saveNow\<close> nor the timeout saves again.
\<close>

theorem autosave_skip_unchanged_witness:
  "lastSavedContentRef
     (run [Render ''Y'' 2000 True, Render '' X '' 2000 True]
        (step (Settle 0 True) (run [Render ''X'' 2000 True, Tick 2000] initial))) = ''X''
   \<and> persistCalls (step SaveNow
       (run [Render ''Y'' 2000 True, Render '' X '' 2000 True]
          (step (Settle 0 True) (run [Render ''X'' 2000 True, Tick 2000] initial))))
     = [(2000, ''X'')]
   \<and> persistCalls (step (Tick 9000)
       (run [Render ''Y'' 2000 True, Render '' X '' 2000 True]
          (step (Settle 0 True) (run [Render ''X'' 2000 True, Tick 2000] initial))))
     = [(2000, ''X'')]"
proof -
  let ?s = "run [Render ''X'' 2000 True, Tick 2000] initial"
  let ?es = "[Render ''Y'' 2000 True, Render '' X '' 2000 True]"
  let ?s' = "run ?es (step (Settle 0 True) ?s)"
  have 1: "0 < length (inFlight ?s)" by code_simp
  have 2: "\<forall>e \<in> set ?es. \<not> isSuccess e" by simp
  have x: "inFlight ?s ! 0 = ''X''" by code_simp
  have c: "trim (prop_content ?s') = ''X''" by code_simp
  have t: "\<forall>tm \<in> set (pendingTimers ?s'). trim (closure_content tm) = ''X''" by code_simp
  have p: "persistCalls ?s' = [(2000, ''X'')]" by code_simp
  from autosave_skip_unchanged [OF 1 2 refl, of 9000 0 SaveNow] x c t p
  show ?thesis by simp
qed

text \<open>
  \<^verbatim>\<open>X\<close> is saved, then \<^verbatim>\<open>Y\<close> is saved, then the content is \<^verbatim>\<open>X\<close> again: the timeout at 6000
  saves \<^verbatim>\<open>X\<close> a second time.
\<close>

theorem autosave_resave_counterexample:
  "lastSavedContentRef
     (run [Render ''X'' 2000 True, Tick 2000, Settle 0 True] initial) = ''X''
   \<and> persistCalls
     (run [Render ''X'' 2000 True, Tick 2000, Settle 0 True,
           Render ''Y'' 2000 True, Tick 4000, Settle 0 True,
           Render ''X'' 2000 True] initial)
     = [(2000, ''X''), (4000, ''Y'')]
   \<and> persistCalls
     (run [Render ''X'' 2000 True, Tick 2000, Settle 0 True,
           Render ''Y'' 2000 True, Tick 4000, Settle 0 True,
           Render ''X'' 2000 True, Tick 6000] initial)
     = [(2000, ''X''), (4000, ''Y''), (6000, ''X'')]"
  by code_simp

text \<open>The definitions to unfold when a run of the coordinator is evaluated.\<close>

lemmas coordinator_eval =
  run_def initial_def render_def effect_def clearTimeoutRef_def advanceTo_def fireTimer_def
  debouncedSave_def settle_def saveNow_def trim_def isWhiteSpace_def Let_def

text \<open>What a render and an idle stretch of time leave unchanged.\<close>

lemma effect_other:
  "clock (effect s) = clock s"
  "persistCalls (effect s) = persistCalls s"
  "isSavingRef (effect s) = isSavingRef s"
  "inFlight (effect s) = inFlight s"
  "prop_content (effect s) = prop_content s"
  "prop_enabled (effect s) = prop_enabled s"
  by (simp_all add: effect_def Let_def clearTimeoutRef_other)

lemma render_other:
  "clock (render c d en s) = clock s"
  "persistCalls (render c d en s) = persistCalls s"
  "isSavingRef (render c d en s) = isSavingRef s"
  "inFlight (render c d en s) = inFlight s"
  "lastSavedContentRef (render c d en s) = lastSavedContentRef s"
  "prop_content (render c d en s) = c"
  "prop_enabled (render c d en s) = en"
  by (simp_all add: render_def Let_def effect_other effect_marker clearTimeoutRef_other)

text \<open>A render arms one fresh timeout for its own content, or none; an older one is gone.\<close>

lemma render_timers:
  assumes "coordinator_inv s"
  shows "pendingTimers (render c d en s)
       = (if en \<and> trim c \<noteq> []
          then [\<lparr>timer_id = nextTimerId s, timer_due = clock s + d,
                  closure_content = c, closure_enabled = en\<rparr>]
          else [])"
proof -
  define s1 where "s1 = (if hasCleanup s then clearTimeoutRef s else s)"
  define s2 where "s2 = s1\<lparr>prop_content := c, prop_delay := d, prop_enabled := en\<rparr>"
  have t: "pendingTimers s1 = []"
    using assms clearTimeoutRef_timers [OF assms] by (auto simp: s1_def coordinator_inv_def)
  have "coordinator_inv s1" using assms inv_clearTimeoutRef [OF assms] by (simp add: s1_def)
  with t have i: "coordinator_inv s2" by (simp add: s2_def coordinator_inv_def)
  from t have t2: "pendingTimers s2 = []" by (simp add: s2_def)
  have o: "nextTimerId s2 = nextTimerId s" "clock s2 = clock s" "prop_content s2 = c"
    "prop_enabled s2 = en" "prop_delay s2 = d"
    by (simp_all add: s2_def s1_def clearTimeoutRef_other)
  have "pendingTimers (effect s2)
       = (if en \<and> trim c \<noteq> []
          then [\<lparr>timer_id = nextTimerId s, timer_due = clock s + d,
                  closure_content = c, closure_enabled = en\<rparr>]
          else [])"
    using clearTimeoutRef_timers [OF i] o t2
    by (simp add: effect_def Let_def clearTimeoutRef_other)
  then show ?thesis by (simp add: render_def Let_def s2_def s1_def)
qed

lemma advanceTo_idle_other:
  assumes "\<forall>tm \<in> set (pendingTimers s). t < timer_due tm"
  shows "persistCalls (advanceTo t s) = persistCalls s"
    "isSavingRef (advanceTo t s) = isSavingRef s"
    "lastSavedContentRef (advanceTo t s) = lastSavedContentRef s"
    "clock (advanceTo t s) = max (clock s) t"
  by (simp_all add: advanceTo_idle [OF assms])

text \<open>
  C9. The claim: with delay 2000, content changes at 0, 500 and 900 give exactly one persist
  call, at 2900, with the content as of 900.
  The effect arms no timeout for a content that is empty after trimming, and
  \<^verbatim>\<open>debouncedSave\<close> passes the trimmed content. Amended: when the content as of 900 is not
  empty after trimming, there is exactly one persist call, at 2900 and not before, with the
  trimmed content as of 900, whatever the contents at 0 and 500 are; no timeout is left after
  it. In every reachable state, a render with a content that is not empty after trimming
  leaves exactly one timeout, due a full delay after the render, and a render with a content
  that is empty after trimming leaves none.
\<close>

theorem debounce_collapses_changes:
  assumes "trim c2 \<noteq> []"
  shows "persistCalls
           (run [Render c0 2000 True, Tick 500, Render c1 2000 True, Tick 900,
                 Render c2 2000 True, Tick T] initial)
         = (if 2900 \<le> T then [(2900, trim c2)] else [])
    \<and> (2900 \<le> T \<longrightarrow>
         pendingTimers
           (run [Render c0 2000 True, Tick 500, Render c1 2000 True, Tick 900,
                 Render c2 2000 True, Tick T] initial) = [])
    \<and> (trim c \<noteq> [] \<longrightarrow>
         pendingTimers (step (Render c d True) (run es initial))
         = [\<lparr>timer_id = nextTimerId (run es initial), timer_due = clock (run es initial) + d,
             closure_content = c, closure_enabled = True\<rparr>])
    \<and> (trim c = [] \<longrightarrow> pendingTimers (step (Render c d True) (run es initial)) = [])"
proof -
  define s1 where "s1 = render c0 2000 True initial"
  define s2 where "s2 = advanceTo 500 s1"
  define s3 where "s3 = render c1 2000 True s2"
  define s4 where "s4 = advanceTo 900 s3"
  define s5 where "s5 = render c2 2000 True s4"
  have r: "run [Render c0 2000 True, Tick 500, Render c1 2000 True, Tick 900,
                 Render c2 2000 True, Tick T] initial = advanceTo T s5"
    by (simp add: run_def s1_def s2_def s3_def s4_def s5_def)
  have i1: "coordinator_inv s1" unfolding s1_def by (intro inv_render inv_initial)
  have f1: "clock s1 = 0" "persistCalls s1 = []" "\<not> isSavingRef s1" "lastSavedContentRef s1 = []"
    by (simp_all add: s1_def render_other initial_def)
  have t1: "\<forall>tm \<in> set (pendingTimers s1). 500 < timer_due tm"
    by (simp add: s1_def render_timers [OF inv_initial])
  have i2: "coordinator_inv s2" unfolding s2_def by (intro inv_advanceTo i1)
  have f2: "clock s2 = 500" "persistCalls s2 = []" "\<not> isSavingRef s2" "lastSavedContentRef s2 = []"
    using f1 by (simp_all add: s2_def advanceTo_idle_other [OF t1])
  have i3: "coordinator_inv s3" unfolding s3_def by (intro inv_render i2)
  have f3: "clock s3 = 500" "persistCalls s3 = []" "\<not> isSavingRef s3" "lastSavedContentRef s3 = []"
    using f2 by (simp_all add: s3_def render_other)
  have t3: "\<forall>tm \<in> set (pendingTimers s3). 900 < timer_due tm"
    using f2 by (simp add: s3_def render_timers [OF i2])
  have i4: "coordinator_inv s4" unfolding s4_def by (intro inv_advanceTo i3)
  have f4: "clock s4 = 900" "persistCalls s4 = []" "\<not> isSavingRef s4" "lastSavedContentRef s4 = []"
    using f3 by (simp_all add: s4_def advanceTo_idle_other [OF t3])
  have f5: "clock s5 = 900" "persistCalls s5 = []" "\<not> isSavingRef s5" "lastSavedContentRef s5 = []"
    using f4 by (simp_all add: s5_def render_other)
  let ?tm = "\<lparr>timer_id = nextTimerId s4, timer_due = 2900, closure_content = c2,
              closure_enabled = True\<rparr>"
  have t5: "pendingTimers s5 = [?tm]"
    using assms f4 by (simp add: s5_def render_timers [OF i4])
  have calls: "persistCalls (advanceTo T s5) = (if 2900 \<le> T then [(2900, trim c2)] else [])"
  proof (cases "2900 \<le> T")
    case True
    then have d: "timer_due ?tm \<le> T" by simp
    show ?thesis
      using True assms f5
      by (simp add: advanceTo_fire [OF t5 d] fireTimer_def debouncedSave_def Let_def)
  next
    case False
    then have "\<forall>tm \<in> set (pendingTimers s5). T < timer_due tm" by (simp add: t5)
    from advanceTo_idle_other(1) [OF this] False f5 show ?thesis by simp
  qed
  have timers: "pendingTimers (advanceTo T s5) = []" if "2900 \<le> T"
  proof -
    from that have d: "timer_due ?tm \<le> T" by simp
    show ?thesis
      by (simp add: advanceTo_fire [OF t5 d] fireTimer_def debouncedSave_def Let_def)
  qed
  have "pendingTimers (step (Render c d True) (run es initial))
         = [\<lparr>timer_id = nextTimerId (run es initial), timer_due = clock (run es initial) + d,
             closure_content = c, closure_enabled = True\<rparr>]" if "trim c \<noteq> []"
    using that by (simp add: render_timers [OF inv_reachable])
  moreover have "pendingTimers (step (Render c d True) (run es initial)) = []" if "trim c = []"
    using that by (simp add: render_timers [OF inv_reachable])
  ultimately show ?thesis using calls timers unfolding r by simp
qed

theorem debounce_collapses_changes_witness:
  "persistCalls
     (run [Render ''a'' 2000 True, Tick 500, Render ''ab'' 2000 True, Tick 900,
           Render ''abc'' 2000 True, Tick 2899] initial) = []
   \<and> persistCalls
     (run [Render ''a'' 2000 True, Tick 500, Render ''ab'' 2000 True, Tick 900,
           Render ''abc'' 2000 True, Tick 2900] initial) = [(2900, ''abc'')]
   \<and> persistCalls
     (run [Render ''a'' 2000 True, Tick 500, Render ''ab'' 2000 True, Tick 900,
           Render ''abc'' 2000 True, Tick 60000] initial) = [(2900, ''abc'')]
   \<and> pendingTimers
     (run [Render ''a'' 2000 True, Tick 500, Render ''ab'' 2000 True, Tick 900,
           Render ''abc'' 2000 True, Tick 60000] initial) = []
   \<and> pendingTimers (step (Render ''ab'' 2000 True) (run [Render ''a'' 2000 True, Tick 500] initial))
     = [\<lparr>timer_id = 2, timer_due = 2500, closure_content = ''ab'', closure_enabled = True\<rparr>]
   \<and> pendingTimers (step (Render ''  '' 2000 True) (run [Render ''a'' 2000 True, Tick 500] initial))
     = []"
proof -
  have t: "trim ''abc'' \<noteq> []" and e: "trim ''abc'' = ''abc''" by code_simp+
  have b: "trim ''ab'' \<noteq> []" and w: "trim ''  '' = []" by code_simp+
  have n: "nextTimerId (run [Render ''a'' 2000 True, Tick 500] initial) = 2"
    and c: "clock (run [Render ''a'' 2000 True, Tick 500] initial) = 500"
    by code_simp+
  from debounce_collapses_changes [OF t, of "''a''" "''ab''" 2899]
  have 1: "persistCalls
     (run [Render ''a'' 2000 True, Tick 500, Render ''ab'' 2000 True, Tick 900,
           Render ''abc'' 2000 True, Tick 2899] initial) = []"
    by simp
  from debounce_collapses_changes [OF t, of "''a''" "''ab''" 2900]
  have 2: "persistCalls
     (run [Render ''a'' 2000 True, Tick 500, Render ''ab'' 2000 True, Tick 900,
           Render ''abc'' 2000 True, Tick 2900] initial) = [(2900, ''abc'')]"
    by (simp add: e)
  from debounce_collapses_changes [OF t, of "''a''" "''ab''" 60000]
  have 3: "persistCalls
     (run [Render ''a'' 2000 True, Tick 500, Render ''ab'' 2000 True, Tick 900,
           Render ''abc'' 2000 True, Tick 60000] initial) = [(2900, ''abc'')]"
    and 4: "pendingTimers
     (run [Render ''a'' 2000 True, Tick 500, Render ''ab'' 2000 True, Tick 900,
           Render ''abc'' 2000 True, Tick 60000] initial) = []"
    by (simp_all add: e)
  from debounce_collapses_changes
    [OF t, where c = "''ab''" and d = 2000 and es = "[Render ''a'' 2000 True, Tick 500]"] b n c
  have 5: "pendingTimers (step (Render ''ab'' 2000 True) (run [Render ''a'' 2000 True, Tick 500] initial))
     = [\<lparr>timer_id = 2, timer_due = 2500, closure_content = ''ab'', closure_enabled = True\<rparr>]"
    by simp
  from debounce_collapses_changes
    [OF t, where c = "''  ''" and d = 2000 and es = "[Render ''a'' 2000 True, Tick 500]"] w
  have 6: "pendingTimers (step (Render ''  '' 2000 True) (run [Render ''a'' 2000 True, Tick 500] initial))
     = []"
    by simp
  from 1 2 3 4 5 6 show ?thesis by simp
qed

text \<open>
  A content of two spaces at 900: nothing is ever saved. A content \<^verbatim>\<open>abc\<close> followed by a
  space at 900: what is saved is \<^verbatim>\<open>abc\<close>, not the content as it was.
\<close>

theorem debounce_blank_or_padded_counterexample:
  "persistCalls
     (run [Render ''a'' 2000 True, Tick 500, Render ''ab'' 2000 True, Tick 900,
           Render ''  '' 2000 True, Tick 60000] initial) = []
   \<and> persistCalls
     (run [Render ''a'' 2000 True, Tick 500, Render ''ab'' 2000 True, Tick 900,
           Render ''abc '' 2000 True, Tick 60000] initial) = [(2900, ''abc'')]"
  by (simp add: coordinator_eval)

text \<open>An event makes at most one call of \<^verbatim>\<open>onSave\<close>, with the trimmed content of the latest render.\<close>

lemma debouncedSave_calls:
  "persistCalls (debouncedSave c en s) = persistCalls s
   \<or> persistCalls (debouncedSave c en s) = persistCalls s @ [(clock s, trim c)]"
  by (simp add: debouncedSave_def Let_def)

lemma step_calls:
  assumes "coordinator_inv s"
  shows "persistCalls (step e s) = persistCalls s
       \<or> (\<exists>t. persistCalls (step e s) = persistCalls s @ [(t, trim (prop_content s))])"
proof (cases e)
  case (Render c d en)
  then show ?thesis by (simp add: render_other)
next
  case (Tick t)
  show ?thesis
  proof (cases "\<forall>tm \<in> set (pendingTimers s). t < timer_due tm")
    case True
    from advanceTo_idle [OF True] Tick show ?thesis by simp
  next
    case False
    with assms obtain tm where tm: "pendingTimers s = [tm]" "timer_due tm \<le> t"
      by (cases "pendingTimers s") (auto simp: coordinator_inv_def)
    with assms have c: "closure_content tm = prop_content s" by (simp add: coordinator_inv_def)
    let ?s = "s\<lparr>pendingTimers := [], clock := max (clock s) (timer_due tm)\<rparr>"
    from debouncedSave_calls [of "closure_content tm" "closure_enabled tm" ?s] c Tick
    show ?thesis by (auto simp: advanceTo_fire [OF tm] fireTimer_def)
  qed
next
  case SaveNow
  from debouncedSave_calls [of "prop_content s" "prop_enabled s" "clearTimeoutRef s"] SaveNow
  show ?thesis by (auto simp: saveNow_def clearTimeoutRef_other)
next
  case (Settle k ok)
  then show ?thesis by (simp add: settle_def Let_def)
qed

text \<open>
  C10. In every state that the coordinator reaches, an event makes no call of \<^verbatim>\<open>onSave\<close> or
  one call whose argument is the trimmed content of the latest render. Every argument logged
  is a trimmed string, so a content with white space around it is never an argument. The
  content of a pending call is the argument of a logged call, and when the call succeeds the
  marker is that argument; the marker is always a trimmed string. When the content differs
  from the marker by surrounding white space only, neither \<^verbatim>\<open>saveNow\<close> nor a timeout makes
  a call.
\<close>

theorem persist_argument_trimmed:
  "(persistCalls (step e (run es initial)) = persistCalls (run es initial)
      \<or> (\<exists>t. persistCalls (step e (run es initial))
              = persistCalls (run es initial) @ [(t, trim (prop_content (run es initial)))]))
   \<and> (\<forall>p \<in> set (persistCalls (run es initial)). trim (snd p) = snd p)
   \<and> (c \<noteq> trim c \<longrightarrow> c \<notin> snd ` set (persistCalls (run es initial)))
   \<and> (k < length (inFlight (run es initial)) \<longrightarrow>
        inFlight (run es initial) ! k \<in> snd ` set (persistCalls (run es initial))
        \<and> lastSavedContentRef (step (Settle k True) (run es initial)) = inFlight (run es initial) ! k)
   \<and> trim (lastSavedContentRef (run es initial)) = lastSavedContentRef (run es initial)
   \<and> (trim (prop_content (run es initial)) = lastSavedContentRef (run es initial) \<longrightarrow>
        persistCalls (step SaveNow (run es initial)) = persistCalls (run es initial)
        \<and> persistCalls (step (Tick t) (run es initial)) = persistCalls (run es initial))"
proof -
  let ?s = "run es initial"
  have i: "coordinator_inv ?s" by (rule inv_reachable)
  have 1: "persistCalls (step e ?s) = persistCalls ?s
      \<or> (\<exists>t. persistCalls (step e ?s) = persistCalls ?s @ [(t, trim (prop_content ?s))])"
    by (rule step_calls [OF i])
  from i have 2: "\<forall>p \<in> set (persistCalls ?s). trim (snd p) = snd p"
    by (simp add: coordinator_inv_def)
  then have 3: "c \<notin> snd ` set (persistCalls ?s)" if "c \<noteq> trim c"
    using that by force
  have 4: "inFlight ?s ! k \<in> snd ` set (persistCalls ?s)
        \<and> lastSavedContentRef (step (Settle k True) ?s) = inFlight ?s ! k"
    if "k < length (inFlight ?s)"
  proof -
    from that have "inFlight ?s ! k \<in> set (inFlight ?s)" by simp
    with i have "inFlight ?s ! k \<in> snd ` set (persistCalls ?s)"
      unfolding coordinator_inv_def by blast
    with that show ?thesis by (simp add: settle_def Let_def)
  qed
  from i have 5: "trim (lastSavedContentRef ?s) = lastSavedContentRef ?s"
    by (simp add: coordinator_inv_def)
  have 6: "persistCalls (step SaveNow ?s) = persistCalls ?s
        \<and> persistCalls (step (Tick t) ?s) = persistCalls ?s"
    if "trim (prop_content ?s) = lastSavedContentRef ?s"
  proof -
    from i that have "\<forall>tm \<in> set (pendingTimers ?s). trim (closure_content tm) = lastSavedContentRef ?s"
      by (simp add: coordinator_inv_def)
    from advanceTo_unchanged [OF this] saveNow_unchanged [OF that] show ?thesis by simp
  qed
  from 1 2 3 4 5 6 show ?thesis by blast
qed

text \<open>
  \<^verbatim>\<open>hello\<close> between spaces is saved as \<^verbatim>\<open>hello\<close>; two more spaces at the end are not a
  change that is saved.
\<close>

theorem persist_argument_trimmed_witness:
  "persistCalls (run [Render '' hello '' 2000 True, Tick 2000, Settle 0 True,
                      Render ''hello  '' 2000 True] initial) = [(2000, ''hello'')]
   \<and> lastSavedContentRef (run [Render '' hello '' 2000 True, Tick 2000, Settle 0 True,
                      Render ''hello  '' 2000 True] initial) = ''hello''
   \<and> persistCalls (step SaveNow (run [Render '' hello '' 2000 True, Tick 2000, Settle 0 True,
                      Render ''hello  '' 2000 True] initial)) = [(2000, ''hello'')]
   \<and> persistCalls (step (Tick 9000) (run [Render '' hello '' 2000 True, Tick 2000, Settle 0 True,
                      Render ''hello  '' 2000 True] initial)) = [(2000, ''hello'')]
   \<and> '' hello '' \<notin> snd ` set (persistCalls (run [Render '' hello '' 2000 True, Tick 2000,
                      Settle 0 True, Render ''hello  '' 2000 True] initial))
   \<and> inFlight (run [Render '' hello '' 2000 True, Tick 2000] initial) = [''hello'']
   \<and> lastSavedContentRef
         (step (Settle 0 True) (run [Render '' hello '' 2000 True, Tick 2000] initial)) = ''hello''"
proof -
  let ?es = "[Render '' hello '' 2000 True, Tick 2000, Settle 0 True, Render ''hello  '' 2000 True]"
  let ?s = "run ?es initial"
  let ?es' = "[Render '' hello '' 2000 True, Tick 2000]"
  have p: "persistCalls ?s = [(2000, ''hello'')]" by code_simp
  have m: "lastSavedContentRef ?s = ''hello''" by code_simp
  have c: "trim (prop_content ?s) = lastSavedContentRef ?s" by code_simp
  have r: "'' hello '' \<noteq> trim '' hello ''" by code_simp
  have f: "inFlight (run ?es' initial) = [''hello'']" by code_simp
  from persist_argument_trimmed [of SaveNow ?es "'' hello ''" 0 9000] c r
  have "persistCalls (step SaveNow ?s) = persistCalls ?s"
    and "persistCalls (step (Tick 9000) ?s) = persistCalls ?s"
    and "'' hello '' \<notin> snd ` set (persistCalls ?s)"
    by blast+
  moreover from persist_argument_trimmed [of SaveNow ?es' "'' hello ''" 0 9000] f
  have "lastSavedContentRef (step (Settle 0 True) (run ?es' initial)) = ''hello''"
    by simp
  ultimately show ?thesis using p m f by simp
qed

end
